theory Spec2Isabelle
  imports Main "HOL-Library.Char_ord" "HOL-Library.List_Lexorder"
begin

section \<open>Page-replacement simulator: the data model of \<open>main.go\<close>\<close>

text \<open>
  Page identifiers are Go strings. Go's \<open>int\<close> is modelled by \<open>int\<close>: every counter
  of the program is bounded by the length of the trace, so no wrap-around is reachable.
  Loop indices and cursors, which the program only ever starts at zero and increments,
  are \<open>nat\<close>. A slice allocation that the runtime's \<open>makeslice\<close> accepts is assumed to
  succeed: running out of memory depends on the machine and ends the program with a fatal
  error of the runtime, which is outside this model.
\<close>

text \<open>The run-time panics that the two simulators can raise.\<close>

datatype panic =
    NilPointerDereference    \<comment> \<open>\<open>oldestPageElement.Value\<close> when \<open>Front()\<close> is \<open>nil\<close>\<close>
  | IndexOutOfRange          \<comment> \<open>\<open>memoryFrames[victimIndex]\<close> with \<open>victimIndex = -1\<close>\<close>
  | MakesliceCapOutOfRange   \<comment> \<open>\<open>make([]string, 0, numFrames)\<close> with a capacity out of range\<close>

text \<open>
  One constructor for each \<open>fmt.Printf\<close> of the didactic mode; the arguments are the
  values that the format string prints.
\<close>

datatype event =
    Access int string          \<comment> \<open>step number \<open>i+1\<close> and the page accessed\<close>
  | Fault
  | Removed string
  | Inserted string
  | Hit
  | MemoryState "string list"

record SimulationResult =
  pageFaults :: int
  loadCounts :: "string \<rightharpoonup> int"

text \<open>
  The local variables of a simulator that live across iterations. \<open>stdout\<close> collects
  what has been printed.
\<close>

record simState =
  pageInMmemorySet :: "string set"
  memoryFrames :: "string list"
  result :: SimulationResult
  stdout :: "event list"

record optState = simState +
  nextUseCursor :: "string \<rightharpoonup> nat"

text \<open>Reading a Go map at a missing key yields the zero value of the element type.\<close>

definition lookupInt :: "(string \<rightharpoonup> int) \<Rightarrow> string \<Rightarrow> int" where
  "lookupInt m k = (case m k of None \<Rightarrow> 0 | Some v \<Rightarrow> v)"

definition lookupCursor :: "(string \<rightharpoonup> nat) \<Rightarrow> string \<Rightarrow> nat" where
  "lookupCursor m k = (case m k of None \<Rightarrow> 0 | Some v \<Rightarrow> v)"

definition lookupSlice :: "(string \<rightharpoonup> int list) \<Rightarrow> string \<Rightarrow> int list" where
  "lookupSlice m k = (case m k of None \<Rightarrow> [] | Some v \<Rightarrow> v)"

text \<open>\<open>if didacticMode { fmt.Printf(...) }\<close>\<close>

definition emit :: "bool \<Rightarrow> event \<Rightarrow> ('a simState_scheme) \<Rightarrow> ('a simState_scheme)" where
  "emit didacticMode e s = (if didacticMode then s\<lparr>stdout := stdout s @ [e]\<rparr> else s)"

text \<open>\<open>result.pageFaults++; result.loadCounts[page]++\<close>\<close>

definition countFault :: "string \<Rightarrow> SimulationResult \<Rightarrow> SimulationResult" where
  "countFault page r =
     r\<lparr>pageFaults := pageFaults r + 1,
       loadCounts := (loadCounts r)(page \<mapsto> lookupInt (loadCounts r) page + 1)\<rparr>"

definition emptyResult :: SimulationResult where
  "emptyResult = \<lparr>pageFaults = 0, loadCounts = Map.empty\<rparr>"

text \<open>The narration of a fault, common to both simulators.\<close>

definition narrateFault ::
  "bool \<Rightarrow> string \<Rightarrow> string \<Rightarrow> ('a simState_scheme) \<Rightarrow> ('a simState_scheme)" where
  "narrateFault didacticMode evictedPage page s =
     emit didacticMode (Inserted page)
       ((if evictedPage \<noteq> [] then emit didacticMode (Removed evictedPage) else id)
          (emit didacticMode Fault s))"

section \<open>The FIFO simulator\<close>

text \<open>
  The body of \<open>if memoryFrames.Len() == numFrames\<close>: the front of the list is removed
  from the list and from the set. \<open>Front()\<close> of an empty list is \<open>nil\<close> and reading
  its \<open>Value\<close> panics. The result carries \<open>evictedPage\<close>, which stays \<open>""\<close> when
  the branch is not taken.
\<close>

definition fifoEvict :: "int \<Rightarrow> simState \<Rightarrow> panic + string \<times> simState" where
  "fifoEvict numFrames s =
     (if int (length (memoryFrames s)) = numFrames then
        (case memoryFrames s of
           [] \<Rightarrow> Inl NilPointerDereference
         | oldestPage # others \<Rightarrow>
             Inr (oldestPage,
                  s\<lparr>pageInMmemorySet := pageInMmemorySet s - {oldestPage},
                    memoryFrames := others\<rparr>))
      else Inr ([], s))"

text \<open>One iteration of the loop of \<open>fifoAlgorithm\<close>, at index \<open>i\<close> on \<open>page\<close>.\<close>

definition fifoIter :: "int \<Rightarrow> bool \<Rightarrow> nat \<Rightarrow> string \<Rightarrow> simState \<Rightarrow> panic + simState" where
  "fifoIter numFrames didacticMode i page s0 =
     (let s1 = emit didacticMode (Access (int i + 1) page) s0 in
      case (if page \<notin> pageInMmemorySet s1 then
              (case fifoEvict numFrames (s1\<lparr>result := countFault page (result s1)\<rparr>) of
                 Inl e \<Rightarrow> Inl e
               | Inr (evictedPage, s2) \<Rightarrow>
                   Inr (narrateFault didacticMode evictedPage page
                          (s2\<lparr>memoryFrames := memoryFrames s2 @ [page],
                              pageInMmemorySet := insert page (pageInMmemorySet s2)\<rparr>)))
            else Inr (emit didacticMode Hit s1)) of
        Inl e \<Rightarrow> Inl e
      | Inr s3 \<Rightarrow> Inr (emit didacticMode (MemoryState (memoryFrames s3)) s3))"

text \<open>\<open>for i, page := range pageReferences\<close>, from index \<open>i\<close> on the rest of the trace.\<close>

fun fifoLoop :: "int \<Rightarrow> bool \<Rightarrow> nat \<Rightarrow> string list \<Rightarrow> simState \<Rightarrow> panic + simState" where
  "fifoLoop numFrames didacticMode i [] s = Inr s"
| "fifoLoop numFrames didacticMode i (page # rest) s =
     (case fifoIter numFrames didacticMode i page s of
        Inl e \<Rightarrow> Inl e
      | Inr s' \<Rightarrow> fifoLoop numFrames didacticMode (Suc i) rest s')"

definition fifoInit :: simState where
  "fifoInit = \<lparr>pageInMmemorySet = {}, memoryFrames = [], result = emptyResult, stdout = []\<rparr>"

text \<open>The whole run, keeping the final local state (for statements about the run).\<close>

definition fifoRun :: "string list \<Rightarrow> int \<Rightarrow> bool \<Rightarrow> panic + simState" where
  "fifoRun pageReferences numFrames didacticMode =
     fifoLoop numFrames didacticMode 0 pageReferences fifoInit"

definition fifoAlgorithm :: "string list \<Rightarrow> int \<Rightarrow> bool \<Rightarrow> panic + SimulationResult" where
  "fifoAlgorithm pageReferences numFrames didacticMode =
     (case fifoRun pageReferences numFrames didacticMode of
        Inl e \<Rightarrow> Inl e
      | Inr s \<Rightarrow> Inr (result s))"

section \<open>The optimal simulator\<close>

text \<open>\<open>for cursor < len(positions) && positions[cursor] <= i { cursor++ }\<close>\<close>

function advanceCursor :: "int list \<Rightarrow> int \<Rightarrow> nat \<Rightarrow> nat" where
  "advanceCursor positions i cursor =
     (if cursor < length positions \<and> positions ! cursor \<le> i
      then advanceCursor positions i (Suc cursor) else cursor)"
  by pat_completeness auto
termination
  by (relation "measure (\<lambda>(positions, i, cursor). length positions - cursor)") auto

declare advanceCursor.simps [simp del]

text \<open>
  The scan \<open>for frameIdx, framePage := range memoryFrames\<close> of a full-memory miss, from
  \<open>frameIdx\<close> on the rest of the frames. It returns the cursors and \<open>victimIndex\<close>.
\<close>

fun scanFrames ::
  "(string \<rightharpoonup> int list) \<Rightarrow> int \<Rightarrow> nat \<Rightarrow> string list \<Rightarrow> (string \<rightharpoonup> nat) \<Rightarrow> int \<Rightarrow> int
     \<Rightarrow> (string \<rightharpoonup> nat) \<times> int" where
  "scanFrames pagePositions i frameIdx [] cursors farthest victimIndex = (cursors, victimIndex)"
| "scanFrames pagePositions i frameIdx (framePage # rest) cursors farthest victimIndex =
     (let positions = lookupSlice pagePositions framePage;
          cursor = advanceCursor positions i (lookupCursor cursors framePage);
          cursors' = cursors(framePage \<mapsto> cursor);
          nextPos = (if cursor < length positions then positions ! cursor else - 1)
      in if nextPos = - 1 then (cursors', int frameIdx)
         else if nextPos > farthest
              then scanFrames pagePositions i (Suc frameIdx) rest cursors' nextPos (int frameIdx)
              else scanFrames pagePositions i (Suc frameIdx) rest cursors' farthest victimIndex)"

text \<open>
  The \<open>else\<close> branch of a miss: the scan from \<open>farthest = -1\<close>, \<open>victimIndex = -1\<close>, then
  the victim's frame is overwritten in place. Indexing \<open>memoryFrames\<close> out of range
  panics.
\<close>

definition optEvict ::
  "(string \<rightharpoonup> int list) \<Rightarrow> nat \<Rightarrow> string \<Rightarrow> optState \<Rightarrow> panic + string \<times> optState" where
  "optEvict pagePositions i page s =
     (case scanFrames pagePositions (int i) 0 (memoryFrames s) (nextUseCursor s) (- 1) (- 1) of
        (cursors, victimIndex) \<Rightarrow>
          if victimIndex < 0 \<or> int (length (memoryFrames s)) \<le> victimIndex
          then Inl IndexOutOfRange
          else
            (let evictedPage = memoryFrames s ! nat victimIndex in
             Inr (evictedPage,
                  s\<lparr>nextUseCursor := cursors,
                    pageInMmemorySet := insert page (pageInMmemorySet s - {evictedPage}),
                    memoryFrames := (memoryFrames s)[nat victimIndex := page]\<rparr>)))"

text \<open>The placement of a faulting page: append while there is room, evict otherwise.\<close>

definition optPlace ::
  "(string \<rightharpoonup> int list) \<Rightarrow> int \<Rightarrow> nat \<Rightarrow> string \<Rightarrow> optState \<Rightarrow> panic + string \<times> optState" where
  "optPlace pagePositions numFrames i page s =
     (if int (length (memoryFrames s)) < numFrames then
        Inr ([], s\<lparr>memoryFrames := memoryFrames s @ [page],
                   pageInMmemorySet := insert page (pageInMmemorySet s)\<rparr>)
      else optEvict pagePositions i page s)"

text \<open>
  One iteration of the loop of \<open>optimalAlgorithmOptimized\<close>. The didactic mode prints a
  sorted copy of the frames.
\<close>

definition optIter ::
  "(string \<rightharpoonup> int list) \<Rightarrow> int \<Rightarrow> bool \<Rightarrow> nat \<Rightarrow> string \<Rightarrow> optState \<Rightarrow> panic + optState" where
  "optIter pagePositions numFrames didacticMode i page s0 =
     (let s1 = emit didacticMode (Access (int i + 1) page) s0 in
      case (if page \<notin> pageInMmemorySet s1 then
              (case optPlace pagePositions numFrames i page
                      (s1\<lparr>result := countFault page (result s1)\<rparr>) of
                 Inl e \<Rightarrow> Inl e
               | Inr (evictedPage, s2) \<Rightarrow> Inr (narrateFault didacticMode evictedPage page s2))
            else Inr (emit didacticMode Hit s1)) of
        Inl e \<Rightarrow> Inl e
      | Inr s3 \<Rightarrow> Inr (emit didacticMode (MemoryState (sort (memoryFrames s3))) s3))"

fun optLoop ::
  "(string \<rightharpoonup> int list) \<Rightarrow> int \<Rightarrow> bool \<Rightarrow> nat \<Rightarrow> string list \<Rightarrow> optState \<Rightarrow> panic + optState" where
  "optLoop pagePositions numFrames didacticMode i [] s = Inr s"
| "optLoop pagePositions numFrames didacticMode i (page # rest) s =
     (case optIter pagePositions numFrames didacticMode i page s of
        Inl e \<Rightarrow> Inl e
      | Inr s' \<Rightarrow> optLoop pagePositions numFrames didacticMode (Suc i) rest s')"

definition optInit :: optState where
  "optInit = \<lparr>pageInMmemorySet = {}, memoryFrames = [], result = emptyResult, stdout = [],
              nextUseCursor = Map.empty\<rparr>"

text \<open>
  From the Go runtime (\<open>runtime.makeslice\<close>): \<open>make([]T, 0, cap)\<close> panics with
  \<open>makeslice: cap out of range\<close> when \<open>cap\<close> is negative or when the size of \<open>T\<close> times
  \<open>cap\<close> exceeds \<open>maxAlloc\<close>. On the 64-bit platforms with 48-bit heap addresses
  (linux/amd64 among them) \<open>maxAlloc\<close> is \<open>2^48\<close> bytes, and a string header (pointer and
  length) takes 16 bytes.
\<close>

definition maxAlloc :: int where
  "maxAlloc = 2 ^ 48"

definition stringSize :: int where
  "stringSize = 16"

text \<open>
  \<open>make([]string, 0, numFrames)\<close> runs before the loop, so a capacity out of range
  panics on every trace, the empty one included.
\<close>

definition optRun ::
  "string list \<Rightarrow> int \<Rightarrow> (string \<rightharpoonup> int list) \<Rightarrow> bool \<Rightarrow> panic + optState" where
  "optRun pageReferences numFrames pagePositions didacticMode =
     (if numFrames < 0 \<or> maxAlloc < stringSize * numFrames then Inl MakesliceCapOutOfRange
      else optLoop pagePositions numFrames didacticMode 0 pageReferences optInit)"

definition optimalAlgorithmOptimized ::
  "string list \<Rightarrow> int \<Rightarrow> (string \<rightharpoonup> int list) \<Rightarrow> bool \<Rightarrow> panic + SimulationResult" where
  "optimalAlgorithmOptimized pageReferences numFrames pagePositions didacticMode =
     (case optRun pageReferences numFrames pagePositions didacticMode of
        Inl e \<Rightarrow> Inl e
      | Inr s \<Rightarrow> Inr (result s))"

section \<open>The driver: capacity check and trace preprocessing in \<open>main\<close>\<close>

text \<open>
  \<open>pagePositions[page] = append(pagePositions[page], i)\<close> for each index of the trace,
  from index \<open>i\<close> on the rest of the trace.
\<close>

fun positionsLoop ::
  "nat \<Rightarrow> string list \<Rightarrow> (string \<rightharpoonup> int list) \<Rightarrow> (string \<rightharpoonup> int list)" where
  "positionsLoop i [] pagePositions = pagePositions"
| "positionsLoop i (page # rest) pagePositions =
     positionsLoop (Suc i) rest
       (pagePositions(page \<mapsto> lookupSlice pagePositions page @ [int i]))"

definition buildPagePositions :: "string list \<Rightarrow> (string \<rightharpoonup> int list)" where
  "buildPagePositions pageReferences = positionsLoop 0 pageReferences Map.empty"

text \<open>
  \<open>main\<close> exits with status 1 when the physical memory is smaller than one page of
  4096 bytes; otherwise \<open>numFrames\<close> is the quotient.
\<close>

definition pageSizeBytes :: int where
  "pageSizeBytes = 4 * 1024"

definition mainNumFrames :: "int \<Rightarrow> int option" where
  "mainNumFrames physicalMemoryBytes =
     (if physicalMemoryBytes < pageSizeBytes then None
      else Some (physicalMemoryBytes div pageSizeBytes))"

section \<open>Notions used to state the properties\<close>

text \<open>The sum of all values of \<open>loadCounts\<close>.\<close>

definition sumLoadCounts :: "SimulationResult \<Rightarrow> int" where
  "sumLoadCounts r = (\<Sum>p\<in>dom (loadCounts r). the (loadCounts r p))"

text \<open>
  The bookkeeping of a result: finitely many keys, \<open>pageFaults\<close> is the sum of the
  counts, and no key has a count below one.
\<close>

definition loadsInv :: "SimulationResult \<Rightarrow> bool" where
  "loadsInv r \<longleftrightarrow> finite (dom (loadCounts r)) \<and> pageFaults r = sumLoadCounts r
      \<and> (\<forall>p\<in>dom (loadCounts r). 1 \<le> the (loadCounts r p))"

text \<open>
  The invariant of the loop of either simulator with \<open>numFrames\<close> frames: the set
  mirrors the frames, no page is resident twice, the capacity is respected, every
  resident page has been loaded, and while there is room every loaded page is resident.
\<close>

definition memInv :: "int \<Rightarrow> 'a simState_scheme \<Rightarrow> bool" where
  "memInv numFrames s \<longleftrightarrow>
     set (memoryFrames s) = pageInMmemorySet s \<and> distinct (memoryFrames s)
     \<and> int (length (memoryFrames s)) \<le> numFrames
     \<and> loadsInv (result s)
     \<and> pageInMmemorySet s \<subseteq> dom (loadCounts (result s))
     \<and> (int (length (memoryFrames s)) < numFrames
          \<longrightarrow> pageInMmemorySet s = dom (loadCounts (result s)))"

text \<open>What one iteration on \<open>page\<close> does to the result and to the residency of \<open>page\<close>.\<close>

definition stepped :: "string \<Rightarrow> 'a simState_scheme \<Rightarrow> 'a simState_scheme \<Rightarrow> bool" where
  "stepped page s s' \<longleftrightarrow>
     page \<in> pageInMmemorySet s'
     \<and> pageInMmemorySet s' \<subseteq> insert page (pageInMmemorySet s)
     \<and> dom (loadCounts (result s')) = insert page (dom (loadCounts (result s)))
     \<and> (if page \<in> pageInMmemorySet s
         then result s' = result s \<and> pageInMmemorySet s' = pageInMmemorySet s
         else result s' = countFault page (result s))"

text \<open>Two states that differ at most in what has been printed.\<close>

definition sameCore :: "'a simState_scheme \<Rightarrow> 'b simState_scheme \<Rightarrow> bool" where
  "sameCore s t \<longleftrightarrow> pageInMmemorySet s = pageInMmemorySet t
      \<and> memoryFrames s = memoryFrames t \<and> result s = result t"

section \<open>Notions used for the victim selection and the optimality of the optimal simulator\<close>

text \<open>The next index after \<open>i\<close> at which page \<open>q\<close> is referenced in the trace, if any.\<close>

definition nextOccurrence :: "string list \<Rightarrow> nat \<Rightarrow> string \<Rightarrow> nat option" where
  "nextOccurrence pageReferences i q =
     List.find (\<lambda>j. pageReferences ! j = q) [Suc i..<length pageReferences]"

text \<open>
  The next position recorded for page \<open>q\<close> after index \<open>i\<close> in \<open>pagePositions\<close>: the
  first entry of its list, in the order of the list, that is greater than \<open>i\<close>.
\<close>

definition nextRecorded :: "(string \<rightharpoonup> int list) \<Rightarrow> nat \<Rightarrow> string \<Rightarrow> int option" where
  "nextRecorded pagePositions i q =
     List.find (\<lambda>x. int i < x) (lookupSlice pagePositions q)"

text \<open>
  The victim of a full-memory miss as the specification words it, for a given next
  occurrence \<open>nextUse\<close> of each page: if some resident page has no next occurrence, the
  first such page in the order of the frames; otherwise the page whose next occurrence is
  largest, the first in the order of the frames among equal ones.
\<close>

definition specVictim ::
  "(string \<Rightarrow> 'b::linorder option) \<Rightarrow> string list \<Rightarrow> nat \<Rightarrow> bool" where
  "specVictim nextUse frames v \<longleftrightarrow>
     v < length frames \<and>
     (if \<exists>q\<in>set frames. nextUse q = None
      then nextUse (frames ! v) = None \<and> (\<forall>u<v. nextUse (frames ! u) \<noteq> None)
      else (\<forall>u<length frames. the (nextUse (frames ! u)) \<le> the (nextUse (frames ! v)))
           \<and> (\<forall>u<v. the (nextUse (frames ! u)) < the (nextUse (frames ! v))))"

text \<open>
  What the scan assigns to \<open>nextPos\<close> for a frame page once its cursor has been advanced:
  the first recorded position beyond \<open>i\<close>, or \<open>-1\<close>.
\<close>

definition nextPosOf :: "(string \<rightharpoonup> int list) \<Rightarrow> int \<Rightarrow> string \<Rightarrow> int" where
  "nextPosOf pagePositions i q =
     (case List.find (\<lambda>x. i < x) (lookupSlice pagePositions q) of None \<Rightarrow> - 1 | Some x \<Rightarrow> x)"

text \<open>The scan of the frames as a function of the \<open>nextPos\<close> values alone.\<close>

fun scanPure :: "(string \<Rightarrow> int) \<Rightarrow> nat \<Rightarrow> string list \<Rightarrow> int \<Rightarrow> int \<Rightarrow> int" where
  "scanPure np k [] far v = v"
| "scanPure np k (f # fs) far v =
     (if np f = - 1 then int k
      else if np f > far then scanPure np (Suc k) fs (np f) (int k)
      else scanPure np (Suc k) fs far v)"

text \<open>
  The invariant of the cursors at index \<open>i\<close>: a cursor stays within its list of
  positions, and every position before it is at most \<open>i\<close>.
\<close>

definition cursorInv :: "(string \<rightharpoonup> int list) \<Rightarrow> int \<Rightarrow> (string \<rightharpoonup> nat) \<Rightarrow> bool" where
  "cursorInv pagePositions i cursors \<longleftrightarrow>
     (\<forall>q. lookupCursor cursors q \<le> length (lookupSlice pagePositions q)
        \<and> (\<forall>j<lookupCursor cursors q. lookupSlice pagePositions q ! j \<le> i))"

text \<open>
  \<open>schedule k S rs n\<close>: some demand-paging policy with \<open>k\<close> frames that starts with the
  resident set \<open>S\<close> serves the requests \<open>rs\<close> with \<open>n\<close> faults. On a miss the policy
  may keep any set of at most \<open>k\<close> pages made of the requested page and pages that were
  resident.
\<close>

inductive schedule :: "nat \<Rightarrow> 'a set \<Rightarrow> 'a list \<Rightarrow> nat \<Rightarrow> bool" for k :: nat where
  finished: "schedule k S [] 0"
| hit: "r \<in> S \<Longrightarrow> schedule k S rs n \<Longrightarrow> schedule k S (r # rs) n"
| miss: "r \<notin> S \<Longrightarrow> r \<in> S' \<Longrightarrow> S' \<subseteq> insert r S \<Longrightarrow> finite S' \<Longrightarrow> card S' \<le> k
           \<Longrightarrow> schedule k S' rs n \<Longrightarrow> schedule k S (r # rs) (Suc n)"

text \<open>Page \<open>b\<close> is not requested in \<open>rs\<close> before the first request of page \<open>a\<close>.\<close>

definition notBefore :: "'a \<Rightarrow> 'a \<Rightarrow> 'a list \<Rightarrow> bool" where
  "notBefore b a rs \<longleftrightarrow> b \<notin> set (takeWhile (\<lambda>x. x \<noteq> a) rs)"

section \<open>Bookkeeping of the result\<close>

lemma emit_fields [simp]:
  "pageInMmemorySet (emit d e s) = pageInMmemorySet s"
  "memoryFrames (emit d e s) = memoryFrames s"
  "result (emit d e s) = result s"
  by (simp_all add: emit_def)

lemma emit_cursor [simp]: "nextUseCursor (emit d e s) = nextUseCursor s"
  by (simp add: emit_def)

lemma narrateFault_fields [simp]:
  "pageInMmemorySet (narrateFault d ev page s) = pageInMmemorySet s"
  "memoryFrames (narrateFault d ev page s) = memoryFrames s"
  "result (narrateFault d ev page s) = result s"
  by (simp_all add: narrateFault_def)

lemma narrateFault_cursor [simp]: "nextUseCursor (narrateFault d ev page s) = nextUseCursor s"
  by (simp add: narrateFault_def)

lemma countFault_fields [simp]:
  "pageFaults (countFault page r) = pageFaults r + 1"
  "dom (loadCounts (countFault page r)) = insert page (dom (loadCounts r))"
  by (simp_all add: countFault_def)

lemma loadsInv_empty: "loadsInv emptyResult"
  by (simp add: loadsInv_def emptyResult_def sumLoadCounts_def)

lemma sumLoadCounts_countFault:
  assumes fin: "finite (dom (loadCounts r))"
  shows "sumLoadCounts (countFault page r) = sumLoadCounts r + 1"
proof -
  let ?A = "dom (loadCounts r)"
  let ?f = "\<lambda>p. the (loadCounts r p)"
  let ?g = "\<lambda>p. the (loadCounts (countFault page r) p)"
  have rest: "sum ?g (?A - {page}) = sum ?f (?A - {page})"
    by (rule sum.cong) (auto simp: countFault_def)
  show ?thesis
  proof (cases "page \<in> ?A")
    case True
    then obtain c where c: "loadCounts r page = Some c" by auto
    have "sum ?g ?A = ?g page + sum ?g (?A - {page})"
      using fin True by (rule sum.remove)
    moreover have "sum ?f ?A = ?f page + sum ?f (?A - {page})"
      using fin True by (rule sum.remove)
    moreover have "?g page = ?f page + 1"
      using c by (simp add: countFault_def lookupInt_def)
    ultimately show ?thesis
      using True rest by (simp add: sumLoadCounts_def insert_absorb)
  next
    case False
    then have n: "loadCounts r page = None" by auto
    have "sum ?g (insert page ?A) = ?g page + sum ?g (?A - {page})"
      using fin by (rule sum.insert_remove)
    moreover have "?A - {page} = ?A" using False by auto
    moreover have "?g page = 1"
      using n by (simp add: countFault_def lookupInt_def)
    ultimately show ?thesis
      using rest by (simp add: sumLoadCounts_def)
  qed
qed

lemma loadsInv_countFault: "loadsInv r \<Longrightarrow> loadsInv (countFault page r)"
  unfolding loadsInv_def
  apply (intro conjI)
    apply simp
   apply (simp add: sumLoadCounts_countFault)
  apply (auto simp: countFault_def lookupInt_def split: option.splits)
  apply force+
  done

lemma fifoIter_hit:
  assumes "page \<in> pageInMmemorySet s"
  shows "\<exists>s'. fifoIter nf d i page s = Inr s' \<and> pageInMmemorySet s' = pageInMmemorySet s
           \<and> memoryFrames s' = memoryFrames s \<and> result s' = result s"
  using assms by (simp add: fifoIter_def Let_def)

lemma fifoIter_add:
  assumes "page \<notin> pageInMmemorySet s" "int (length (memoryFrames s)) \<noteq> nf"
  shows "\<exists>s'. fifoIter nf d i page s = Inr s'
           \<and> pageInMmemorySet s' = insert page (pageInMmemorySet s)
           \<and> memoryFrames s' = memoryFrames s @ [page]
           \<and> result s' = countFault page (result s)"
  using assms by (simp add: fifoIter_def fifoEvict_def Let_def)

lemma fifoIter_evict:
  assumes "page \<notin> pageInMmemorySet s" "int (length (memoryFrames s)) = nf"
    "memoryFrames s = oldest # others"
  shows "\<exists>s'. fifoIter nf d i page s = Inr s'
           \<and> pageInMmemorySet s' = insert page (pageInMmemorySet s - {oldest})
           \<and> memoryFrames s' = others @ [page]
           \<and> result s' = countFault page (result s)"
  using assms by (simp add: fifoIter_def fifoEvict_def Let_def)

lemma fifoIter_inv:
  assumes nf: "1 \<le> nf" and inv: "memInv nf s"
  shows "\<exists>s'. fifoIter nf d i page s = Inr s' \<and> memInv nf s' \<and> stepped page s s'"
proof (cases "page \<in> pageInMmemorySet s")
  case True
  from fifoIter_hit [OF True] obtain s' where s': "fifoIter nf d i page s = Inr s'"
    "pageInMmemorySet s' = pageInMmemorySet s" "memoryFrames s' = memoryFrames s"
    "result s' = result s" by blast
  have "memInv nf s'" using inv s' by (simp add: memInv_def)
  moreover have "stepped page s s'" using inv s' True by (auto simp: stepped_def memInv_def)
  ultimately show ?thesis using s' by blast
next
  case False
  note li = loadsInv_countFault [of "result s" page]
  show ?thesis
  proof (cases "int (length (memoryFrames s)) = nf")
    case full: True
    with nf obtain oldest others where fr: "memoryFrames s = oldest # others"
      by (cases "memoryFrames s") auto
    from fifoIter_evict [OF False full fr] obtain s' where s': "fifoIter nf d i page s = Inr s'"
      "pageInMmemorySet s' = insert page (pageInMmemorySet s - {oldest})"
      "memoryFrames s' = others @ [page]"
      "result s' = countFault page (result s)" by blast
    have "memInv nf s'" using inv s' False fr full li by (auto simp: memInv_def)
    moreover have "stepped page s s'" using s' False by (auto simp: stepped_def)
    ultimately show ?thesis using s' by blast
  next
    case notfull: False
    from fifoIter_add [OF False notfull] obtain s' where s': "fifoIter nf d i page s = Inr s'"
      "pageInMmemorySet s' = insert page (pageInMmemorySet s)"
      "memoryFrames s' = memoryFrames s @ [page]"
      "result s' = countFault page (result s)" by blast
    have "memInv nf s'" using inv s' False notfull li by (auto simp: memInv_def)
    moreover have "stepped page s s'" using s' False by (auto simp: stepped_def)
    ultimately show ?thesis using s' by blast
  qed
qed

lemma advanceCursor_mono: "c \<le> advanceCursor ps i c"
proof (induction ps i c rule: advanceCursor.induct)
  case (1 ps i c)
  then show ?case by (subst advanceCursor.simps) (auto simp: Suc_leD)
qed

lemma advanceCursor_stop:
  "advanceCursor ps i c < length ps \<Longrightarrow> i < ps ! advanceCursor ps i c"
proof (induction ps i c rule: advanceCursor.induct)
  case (1 ps i c)
  show ?case
  proof (cases "c < length ps \<and> ps ! c \<le> i")
    case True
    then have e: "advanceCursor ps i c = advanceCursor ps i (Suc c)"
      by (subst advanceCursor.simps) simp
    with "1.IH" [OF True] "1.prems" show ?thesis by simp
  next
    case False
    then have e: "advanceCursor ps i c = c" by (subst advanceCursor.simps) auto
    with False "1.prems" show ?thesis by auto
  qed
qed

lemma advanceCursor_le_length:
  "c \<le> length ps \<Longrightarrow> advanceCursor ps i c \<le> length ps"
proof (induction ps i c rule: advanceCursor.induct)
  case (1 ps i c)
  show ?case
  proof (cases "c < length ps \<and> ps ! c \<le> i")
    case True
    then have e: "advanceCursor ps i c = advanceCursor ps i (Suc c)"
      by (subst advanceCursor.simps) simp
    with "1.IH" [OF True] True show ?thesis by simp
  next
    case False
    then have e: "advanceCursor ps i c = c" by (subst advanceCursor.simps) auto
    with "1.prems" show ?thesis by simp
  qed
qed

lemma advanceCursor_skipped:
  "c \<le> j \<Longrightarrow> j < advanceCursor ps i c \<Longrightarrow> ps ! j \<le> i"
proof (induction ps i c rule: advanceCursor.induct)
  case (1 ps i c)
  show ?case
  proof (cases "c < length ps \<and> ps ! c \<le> i")
    case True
    then have e: "advanceCursor ps i c = advanceCursor ps i (Suc c)"
      by (subst advanceCursor.simps) simp
    show ?thesis
    proof (cases "j = c")
      case True
      with \<open>c < length ps \<and> ps ! c \<le> i\<close> show ?thesis by simp
    next
      case False
      with "1.prems" have "Suc c \<le> j" by simp
      with "1.IH" [OF True] "1.prems" e show ?thesis by simp
    qed
  next
    case False
    then have e: "advanceCursor ps i c = c" by (subst advanceCursor.simps) auto
    with "1.prems" show ?thesis by simp
  qed
qed

lemma scanFrames_range:
  "scanFrames pp i k fs cur far v = (cur', v')
     \<Longrightarrow> v' = v \<or> (int k \<le> v' \<and> v' < int k + int (length fs))"
proof (induction fs arbitrary: k cur far v)
  case Nil
  then show ?case by simp
next
  case (Cons f fs)
  from Cons.prems show ?case
    by (auto simp: Let_def split: if_splits dest!: Cons.IH)
qed

lemma scanFrames_victim:
  assumes "fs \<noteq> []" "far < 0" "0 \<le> i" "scanFrames pp i k fs cur far v = (cur', v')"
  shows "int k \<le> v' \<and> v' < int k + int (length fs)"
proof -
  from assms(1) obtain f rest where fs: "fs = f # rest" by (cases fs) auto
  let ?ps = "lookupSlice pp f"
  let ?c = "advanceCursor ?ps i (lookupCursor cur f)"
  show ?thesis
  proof (cases "?c < length ?ps")
    case True
    from advanceCursor_stop [OF True] have "i < ?ps ! ?c" .
    with assms(2,3) have gt: "far < ?ps ! ?c" "?ps ! ?c \<noteq> - 1" by auto
    with assms(4) fs True
    have "scanFrames pp i (Suc k) rest (cur(f \<mapsto> ?c)) (?ps ! ?c) (int k) = (cur', v')"
      by (simp add: Let_def)
    from scanFrames_range [OF this] show ?thesis using fs by auto
  next
    case False
    with assms(4) fs show ?thesis by (simp add: Let_def)
  qed
qed

lemma optEvict_ok:
  assumes "memoryFrames s \<noteq> []"
  shows "\<exists>v cursors. v < length (memoryFrames s)
           \<and> optEvict pp i page s = Inr (memoryFrames s ! v,
                s\<lparr>nextUseCursor := cursors,
                  pageInMmemorySet := insert page (pageInMmemorySet s - {memoryFrames s ! v}),
                  memoryFrames := (memoryFrames s)[v := page]\<rparr>)"
proof -
  obtain cursors v' where sc:
    "scanFrames pp (int i) 0 (memoryFrames s) (nextUseCursor s) (- 1) (- 1) = (cursors, v')"
    by (cases "scanFrames pp (int i) 0 (memoryFrames s) (nextUseCursor s) (- 1) (- 1)")
  from scanFrames_victim [OF assms _ _ sc] have r: "0 \<le> v'" "v' < int (length (memoryFrames s))"
    by auto
  then have "nat v' < length (memoryFrames s)" by simp
  moreover have "optEvict pp i page s = Inr (memoryFrames s ! nat v',
                s\<lparr>nextUseCursor := cursors,
                  pageInMmemorySet := insert page (pageInMmemorySet s - {memoryFrames s ! nat v'}),
                  memoryFrames := (memoryFrames s)[nat v' := page]\<rparr>)"
    using sc r by (simp add: optEvict_def Let_def)
  ultimately show ?thesis by blast
qed

lemma optIter_hit:
  assumes "page \<in> pageInMmemorySet s"
  shows "\<exists>s'. optIter pp nf d i page s = Inr s' \<and> pageInMmemorySet s' = pageInMmemorySet s
           \<and> memoryFrames s' = memoryFrames s \<and> result s' = result s
           \<and> nextUseCursor s' = nextUseCursor s"
  using assms by (simp add: optIter_def Let_def)

lemma optIter_add:
  assumes "page \<notin> pageInMmemorySet s" "int (length (memoryFrames s)) < nf"
  shows "\<exists>s'. optIter pp nf d i page s = Inr s'
           \<and> pageInMmemorySet s' = insert page (pageInMmemorySet s)
           \<and> memoryFrames s' = memoryFrames s @ [page]
           \<and> result s' = countFault page (result s)
           \<and> nextUseCursor s' = nextUseCursor s"
  using assms by (simp add: optIter_def optPlace_def Let_def)

lemma optIter_evict:
  assumes "page \<notin> pageInMmemorySet s" "\<not> int (length (memoryFrames s)) < nf"
    "memoryFrames s \<noteq> []"
  shows "\<exists>s' v. optIter pp nf d i page s = Inr s' \<and> v < length (memoryFrames s)
           \<and> pageInMmemorySet s' = insert page (pageInMmemorySet s - {memoryFrames s ! v})
           \<and> memoryFrames s' = (memoryFrames s)[v := page]
           \<and> result s' = countFault page (result s)"
proof -
  let ?s1 = "(emit d (Access (int i + 1) page) s)\<lparr>result := countFault page (result s)\<rparr>"
  have "memoryFrames ?s1 \<noteq> []" using assms(3) by simp
  from optEvict_ok [OF this, of pp i page] obtain v cursors where
    v: "v < length (memoryFrames s)" and
    e: "optEvict pp i page ?s1 = Inr (memoryFrames s ! v,
          ?s1\<lparr>nextUseCursor := cursors,
              pageInMmemorySet := insert page (pageInMmemorySet s - {memoryFrames s ! v}),
              memoryFrames := (memoryFrames s)[v := page]\<rparr>)"
    by auto
  show ?thesis
    using assms(1,2) v e by (auto simp: optIter_def optPlace_def Let_def)
qed

lemma optIter_inv:
  assumes nf: "1 \<le> nf" and inv: "memInv nf s"
  shows "\<exists>s'. optIter pp nf d i page s = Inr s' \<and> memInv nf s' \<and> stepped page s s'"
proof (cases "page \<in> pageInMmemorySet s")
  case True
  from optIter_hit [OF True] obtain s' where s': "optIter pp nf d i page s = Inr s'"
    "pageInMmemorySet s' = pageInMmemorySet s" "memoryFrames s' = memoryFrames s"
    "result s' = result s" by blast
  have "memInv nf s'" using inv s' by (simp add: memInv_def)
  moreover have "stepped page s s'" using inv s' True by (auto simp: stepped_def memInv_def)
  ultimately show ?thesis using s' by blast
next
  case False
  note li = loadsInv_countFault [of "result s" page]
  show ?thesis
  proof (cases "int (length (memoryFrames s)) < nf")
    case full: False
    with nf have ne: "memoryFrames s \<noteq> []" by auto
    from optIter_evict [OF False full ne] obtain s' v where
      s': "optIter pp nf d i page s = Inr s'" "v < length (memoryFrames s)"
      "pageInMmemorySet s' = insert page (pageInMmemorySet s - {memoryFrames s ! v})"
      "memoryFrames s' = (memoryFrames s)[v := page]"
      "result s' = countFault page (result s)" by blast
    have d: "distinct (memoryFrames s)" and st: "set (memoryFrames s) = pageInMmemorySet s"
      using inv by (auto simp: memInv_def)
    have "set (memoryFrames s') = pageInMmemorySet s'"
      using s' st set_update_distinct [OF d s'(2), of page] by simp
    moreover have "distinct (memoryFrames s')"
      using s' d False st by (simp add: distinct_list_update)
    ultimately have "memInv nf s'" using inv s' False full li by (auto simp: memInv_def)
    moreover have "stepped page s s'" using s' False by (auto simp: stepped_def)
    ultimately show ?thesis using s' by blast
  next
    case notfull: True
    from optIter_add [OF False notfull] obtain s' where s': "optIter pp nf d i page s = Inr s'"
      "pageInMmemorySet s' = insert page (pageInMmemorySet s)"
      "memoryFrames s' = memoryFrames s @ [page]"
      "result s' = countFault page (result s)" by blast
    have "memInv nf s'" using inv s' False notfull li by (auto simp: memInv_def)
    moreover have "stepped page s s'" using s' False by (auto simp: stepped_def)
    ultimately show ?thesis using s' by blast
  qed
qed

lemma fifoLoop_append:
  "fifoLoop nf d i (xs @ ys) s =
     (case fifoLoop nf d i xs s of Inl e \<Rightarrow> Inl e
      | Inr s' \<Rightarrow> fifoLoop nf d (i + length xs) ys s')"
  by (induction xs arbitrary: i s) (auto split: sum.splits)

lemma optLoop_append:
  "optLoop pp nf d i (xs @ ys) s =
     (case optLoop pp nf d i xs s of Inl e \<Rightarrow> Inl e
      | Inr s' \<Rightarrow> optLoop pp nf d (i + length xs) ys s')"
  by (induction xs arbitrary: i s) (auto split: sum.splits)

lemma fifoLoop_inv:
  assumes "1 \<le> nf" "memInv nf s"
  shows "\<exists>s'. fifoLoop nf d i xs s = Inr s' \<and> memInv nf s'
           \<and> dom (loadCounts (result s')) = dom (loadCounts (result s)) \<union> set xs"
  using assms(2)
proof (induction xs arbitrary: i s)
  case Nil
  then show ?case by simp
next
  case (Cons x xs)
  from fifoIter_inv [OF assms(1) Cons.prems, of d i x] obtain s1 where
    s1: "fifoIter nf d i x s = Inr s1" "memInv nf s1" "stepped x s s1" by blast
  from Cons.IH [OF s1(2), of "Suc i"] obtain s' where
    s': "fifoLoop nf d (Suc i) xs s1 = Inr s'" "memInv nf s'"
    "dom (loadCounts (result s')) = dom (loadCounts (result s1)) \<union> set xs" by blast
  show ?case using s1 s' by (auto simp: stepped_def)
qed

lemma optLoop_inv:
  assumes "1 \<le> nf" "memInv nf s"
  shows "\<exists>s'. optLoop pp nf d i xs s = Inr s' \<and> memInv nf s'
           \<and> dom (loadCounts (result s')) = dom (loadCounts (result s)) \<union> set xs"
  using assms(2)
proof (induction xs arbitrary: i s)
  case Nil
  then show ?case by simp
next
  case (Cons x xs)
  from optIter_inv [OF assms(1) Cons.prems, of pp d i x] obtain s1 where
    s1: "optIter pp nf d i x s = Inr s1" "memInv nf s1" "stepped x s s1" by blast
  from Cons.IH [OF s1(2), of "Suc i"] obtain s' where
    s': "optLoop pp nf d (Suc i) xs s1 = Inr s'" "memInv nf s'"
    "dom (loadCounts (result s')) = dom (loadCounts (result s1)) \<union> set xs" by blast
  show ?case using s1 s' by (auto simp: stepped_def)
qed

lemma memInv_fifoInit: "0 \<le> nf \<Longrightarrow> memInv nf fifoInit"
  by (simp add: memInv_def fifoInit_def loadsInv_empty) (simp add: emptyResult_def)

lemma memInv_optInit: "0 \<le> nf \<Longrightarrow> memInv nf optInit"
  by (simp add: memInv_def optInit_def loadsInv_empty) (simp add: emptyResult_def)

lemma fifoRun_inv:
  assumes "1 \<le> nf"
  shows "\<exists>s. fifoRun refs nf d = Inr s \<and> memInv nf s \<and> dom (loadCounts (result s)) = set refs"
proof -
  have "memInv nf fifoInit" using assms by (simp add: memInv_fifoInit)
  from fifoLoop_inv [OF assms this, of d 0 refs] show ?thesis
    by (auto simp: fifoRun_def fifoInit_def emptyResult_def)
qed

lemma optRun_inv:
  assumes "1 \<le> nf" "optRun refs nf pp d = Inr s"
  shows "memInv nf s \<and> dom (loadCounts (result s)) = set refs"
proof -
  have "memInv nf optInit" using assms(1) by (simp add: memInv_optInit)
  moreover from assms(2) have "optLoop pp nf d 0 refs optInit = Inr s"
    by (simp add: optRun_def split: if_splits)
  ultimately show ?thesis
    using optLoop_inv [OF assms(1), of optInit pp d 0 refs]
    by (auto simp: optInit_def emptyResult_def)
qed

lemma optRun_returns:
  assumes "1 \<le> nf" "stringSize * nf \<le> maxAlloc"
  shows "\<exists>s. optRun refs nf pp d = Inr s"
proof -
  have "memInv nf optInit" using assms(1) by (simp add: memInv_optInit)
  from optLoop_inv [OF assms(1) this, of pp d 0 refs] show ?thesis
    using assms by (auto simp: optRun_def)
qed

text \<open>The run on the whole trace passes through the state of the run on each prefix.\<close>

lemma fifoRun_prefix:
  "fifoRun refs nf d =
     (case fifoRun (take j refs) nf d of Inl e \<Rightarrow> Inl e
      | Inr s \<Rightarrow> fifoLoop nf d (length (take j refs)) (drop j refs) s)"
  using fifoLoop_append [of nf d 0 "take j refs" "drop j refs" fifoInit]
  by (simp add: fifoRun_def split: sum.splits)

lemma optRun_prefix:
  "optRun refs nf pp d =
     (case optRun (take j refs) nf pp d of Inl e \<Rightarrow> Inl e
      | Inr s \<Rightarrow> optLoop pp nf d (length (take j refs)) (drop j refs) s)"
  using optLoop_append [of pp nf d 0 "take j refs" "drop j refs" optInit]
  by (simp add: optRun_def split: sum.splits)

lemma fifoIter_didactic:
  assumes "sameCore s t"
  shows "rel_sum (=) sameCore (fifoIter nf d i p s) (fifoIter nf d' i p t)"
  using assms
  by (auto simp: sameCore_def fifoIter_def fifoEvict_def Let_def split: list.splits)

lemma fifoLoop_didactic:
  assumes "sameCore s t"
  shows "rel_sum (=) sameCore (fifoLoop nf d i xs s) (fifoLoop nf d' i xs t)"
  using assms
proof (induction xs arbitrary: i s t)
  case Nil
  then show ?case by simp
next
  case (Cons x xs)
  from fifoIter_didactic [OF Cons.prems, of nf d i x d'] show ?case
    by (cases "fifoIter nf d i x s"; cases "fifoIter nf d' i x t") (auto intro: Cons.IH)
qed

lemma optIter_didactic:
  assumes "sameCore s t" "nextUseCursor s = nextUseCursor t"
  shows "rel_sum (=) (\<lambda>s' t'. sameCore s' t' \<and> nextUseCursor s' = nextUseCursor t')
           (optIter pp nf d i p s) (optIter pp nf d' i p t)"
  using assms
  by (auto simp: sameCore_def optIter_def optPlace_def optEvict_def Let_def split: prod.splits)

lemma optLoop_didactic:
  assumes "sameCore s t" "nextUseCursor s = nextUseCursor t"
  shows "rel_sum (=) (\<lambda>s' t'. sameCore s' t' \<and> nextUseCursor s' = nextUseCursor t')
           (optLoop pp nf d i xs s) (optLoop pp nf d' i xs t)"
  using assms
proof (induction xs arbitrary: i s t)
  case Nil
  then show ?case by simp
next
  case (Cons x xs)
  from optIter_didactic [OF Cons.prems, of pp nf d i x d'] show ?case
    by (cases "optIter pp nf d i x s"; cases "optIter pp nf d' i x t") (auto intro: Cons.IH)
qed

lemma fifoAlgorithm_didactic: "fifoAlgorithm refs nf d = fifoAlgorithm refs nf d'"
proof -
  have "sameCore fifoInit fifoInit" by (simp add: sameCore_def)
  from fifoLoop_didactic [OF this, of nf d 0 refs d'] show ?thesis
    by (cases "fifoRun refs nf d"; cases "fifoRun refs nf d'")
       (auto simp: fifoAlgorithm_def fifoRun_def sameCore_def)
qed

lemma optimalAlgorithmOptimized_didactic:
  "optimalAlgorithmOptimized refs nf pp d = optimalAlgorithmOptimized refs nf pp d'"
proof -
  have "sameCore optInit optInit" by (simp add: sameCore_def)
  from optLoop_didactic [OF this refl, of pp nf d 0 refs d'] show ?thesis
    by (cases "optLoop pp nf d 0 refs optInit"; cases "optLoop pp nf d' 0 refs optInit")
       (auto simp: optimalAlgorithmOptimized_def optRun_def sameCore_def)
qed

section \<open>The trace preprocessing\<close>

lemma positionsLoop_dom: "dom (positionsLoop i xs m) = dom m \<union> set xs"
  by (induction xs arbitrary: i m) auto

lemma positionsLoop_lookup:
  "n = i + length xs \<Longrightarrow>
   lookupSlice (positionsLoop i xs m) q
     = lookupSlice m q @ map int (filter (\<lambda>j. xs ! (j - i) = q) [i..<n])"
proof (induction xs arbitrary: i m)
  case Nil
  then show ?case by simp
next
  case (Cons x xs)
  let ?m = "m(x \<mapsto> lookupSlice m x @ [int i])"
  have n: "n = Suc i + length xs" and lt: "i < n" using Cons.prems by simp_all
  have u: "[i..<n] = i # [Suc i..<n]" using lt by (rule upt_conv_Cons)
  have sh: "filter (\<lambda>j. (x # xs) ! (j - i) = q) [Suc i..<n]
      = filter (\<lambda>j. xs ! (j - Suc i) = q) [Suc i..<n]"
  proof (rule filter_cong [OF refl])
    fix j assume "j \<in> set [Suc i..<n]"
    then have "j - i = Suc (j - Suc i)" by auto
    then show "((x # xs) ! (j - i) = q) = (xs ! (j - Suc i) = q)" by simp
  qed
  have "lookupSlice (positionsLoop i (x # xs) m) q
      = lookupSlice ?m q @ map int (filter (\<lambda>j. xs ! (j - Suc i) = q) [Suc i..<n])"
    unfolding positionsLoop.simps by (rule Cons.IH [OF n])
  also have "lookupSlice ?m q = lookupSlice m q @ (if x = q then [int i] else [])"
    by (simp add: lookupSlice_def)
  finally have e: "lookupSlice (positionsLoop i (x # xs) m) q
      = lookupSlice m q @ (if x = q then [int i] else [])
          @ map int (filter (\<lambda>j. xs ! (j - Suc i) = q) [Suc i..<n])"
    by simp
  have f: "map int (filter (\<lambda>j. (x # xs) ! (j - i) = q) [i..<n])
      = (if x = q then [int i] else [])
          @ map int (filter (\<lambda>j. xs ! (j - Suc i) = q) [Suc i..<n])"
    unfolding u sh [symmetric] by simp
  show ?case unfolding e f by simp
qed

lemma buildPagePositions_lookup:
  "lookupSlice (buildPagePositions refs) q
     = map int (filter (\<lambda>j. refs ! j = q) [0..<length refs])"
  using positionsLoop_lookup [of "length refs" 0 refs Map.empty q]
  by (simp add: buildPagePositions_def lookupSlice_def)

lemma buildPagePositions_dom: "dom (buildPagePositions refs) = set refs"
  by (simp add: buildPagePositions_def positionsLoop_dom)

section \<open>Consequences of the invariant\<close>

lemma card_resident:
  assumes "memInv nf s"
  shows "int (card (pageInMmemorySet s)) \<le> nf"
    and "pageInMmemorySet s = set (memoryFrames s)"
    and "nf \<le> int (card (dom (loadCounts (result s)))) \<Longrightarrow> int (card (pageInMmemorySet s)) = nf"
proof -
  have c: "card (pageInMmemorySet s) = length (memoryFrames s)"
    using assms distinct_card [of "memoryFrames s"] by (simp add: memInv_def)
  show "int (card (pageInMmemorySet s)) \<le> nf" using assms c by (simp add: memInv_def)
  show "pageInMmemorySet s = set (memoryFrames s)" using assms by (simp add: memInv_def)
  assume "nf \<le> int (card (dom (loadCounts (result s))))"
  then show "int (card (pageInMmemorySet s)) = nf"
    using assms c by (cases "int (length (memoryFrames s)) < nf") (auto simp: memInv_def)
qed

lemma faults_ge_distinct:
  assumes "loadsInv r"
  shows "int (card (dom (loadCounts r))) \<le> pageFaults r"
proof -
  have "(\<Sum>p\<in>dom (loadCounts r). (1::int)) \<le> (\<Sum>p\<in>dom (loadCounts r). the (loadCounts r p))"
    using assms by (intro sum_mono) (simp add: loadsInv_def)
  then show ?thesis using assms by (simp add: loadsInv_def sumLoadCounts_def)
qed

lemma fifoRun_snoc:
  "fifoRun (pre @ [p]) nf d =
     (case fifoRun pre nf d of Inl e \<Rightarrow> Inl e | Inr s \<Rightarrow> fifoIter nf d (length pre) p s)"
  using fifoLoop_append [of nf d 0 pre "[p]" fifoInit]
  by (simp add: fifoRun_def split: sum.splits)

lemma optRun_snoc:
  "optRun (pre @ [p]) nf pp d =
     (case optRun pre nf pp d of Inl e \<Rightarrow> Inl e | Inr s \<Rightarrow> optIter pp nf d (length pre) p s)"
  using optLoop_append [of pp nf d 0 pre "[p]" optInit]
  by (simp add: optRun_def split: sum.splits)

lemma fifo_first_occurrence:
  assumes "1 \<le> nf" "p \<notin> set pre"
  shows "\<exists>s s'. fifoRun pre nf d = Inr s \<and> fifoRun (pre @ [p]) nf d = Inr s'
           \<and> p \<notin> pageInMmemorySet s
           \<and> pageFaults (result s') = pageFaults (result s) + 1"
proof -
  from fifoRun_inv [OF assms(1), of pre d] obtain s where
    s: "fifoRun pre nf d = Inr s" "memInv nf s" "dom (loadCounts (result s)) = set pre" by blast
  then have n: "p \<notin> pageInMmemorySet s" using assms(2) by (auto simp: memInv_def)
  from fifoIter_inv [OF assms(1) s(2), of d "length pre" p] obtain s' where
    s': "fifoIter nf d (length pre) p s = Inr s'" "stepped p s s'" by blast
  then show ?thesis using s n by (auto simp: fifoRun_snoc stepped_def)
qed

lemma opt_first_occurrence:
  assumes "1 \<le> nf" "p \<notin> set pre" "optRun pre nf pp d = Inr s"
  shows "\<exists>s'. optRun (pre @ [p]) nf pp d = Inr s'
           \<and> p \<notin> pageInMmemorySet s
           \<and> pageFaults (result s') = pageFaults (result s) + 1"
proof -
  from optRun_inv [OF assms(1,3)] have
    s: "optRun pre nf pp d = Inr s" "memInv nf s" "dom (loadCounts (result s)) = set pre"
    using assms(3) by simp_all
  then have n: "p \<notin> pageInMmemorySet s" using assms(2) by (auto simp: memInv_def)
  from optIter_inv [OF assms(1) s(2), of pp d "length pre" p] obtain s' where
    s': "optIter pp nf d (length pre) p s = Inr s'" "stepped p s s'" by blast
  then show ?thesis using s n by (auto simp: optRun_snoc stepped_def)
qed

lemma fifoIter_zero_frames:
  "memoryFrames s = [] \<Longrightarrow> pageInMmemorySet s = {} \<Longrightarrow>
     fifoIter 0 d i page s = Inl NilPointerDereference"
  by (simp add: fifoIter_def fifoEvict_def Let_def)

lemma optIter_zero_frames:
  "memoryFrames s = [] \<Longrightarrow> pageInMmemorySet s = {} \<Longrightarrow>
     optIter pp 0 d i page s = Inl IndexOutOfRange"
  by (simp add: optIter_def optPlace_def optEvict_def Let_def)

section \<open>The scan of the frames\<close>

lemma cursorInv_mono: "cursorInv pp i cur \<Longrightarrow> i \<le> i' \<Longrightarrow> cursorInv pp i' cur"
  unfolding cursorInv_def by (meson order_trans)

lemma cursorInv_empty: "cursorInv pp i Map.empty"
  by (simp add: cursorInv_def lookupCursor_def)

lemma advanceCursor_nextPos:
  assumes "c \<le> length ps" "\<forall>j<c. ps ! j \<le> i"
  defines "c' \<equiv> advanceCursor ps i c"
  shows "(if c' < length ps then ps ! c' else - 1)
           = (case List.find (\<lambda>x. i < x) ps of None \<Rightarrow> - 1 | Some x \<Rightarrow> x)"
    and "c' \<le> length ps" and "\<forall>j<c'. ps ! j \<le> i"
proof -
  show le: "c' \<le> length ps" unfolding c'_def using assms(1) by (rule advanceCursor_le_length)
  show before: "\<forall>j<c'. ps ! j \<le> i"
  proof (intro allI impI)
    fix j assume j: "j < c'"
    show "ps ! j \<le> i"
    proof (cases "j < c")
      case True
      then show ?thesis using assms(2) by simp
    next
      case False
      then have "c \<le> j" by simp
      then show ?thesis using j unfolding c'_def by (rule advanceCursor_skipped)
    qed
  qed
  show "(if c' < length ps then ps ! c' else - 1)
           = (case List.find (\<lambda>x. i < x) ps of None \<Rightarrow> - 1 | Some x \<Rightarrow> x)"
  proof (cases "c' < length ps")
    case True
    then have "i < ps ! c'" unfolding c'_def by (rule advanceCursor_stop)
    with True before have "List.find (\<lambda>x. i < x) ps = Some (ps ! c')"
      unfolding find_Some_iff by (intro exI [of _ c']) (auto simp: not_less)
    with True show ?thesis by simp
  next
    case False
    with le have "c' = length ps" by simp
    with before have "\<forall>x\<in>set ps. \<not> i < x"
      by (auto simp: in_set_conv_nth not_less)
    then have "List.find (\<lambda>x. i < x) ps = None"
      unfolding find_None_iff by blast
    with False show ?thesis by simp
  qed
qed

lemma scanFrames_pure:
  assumes "cursorInv pp i cur" "scanFrames pp i k fs cur far v = (cur', v')"
  shows "v' = scanPure (nextPosOf pp i) k fs far v \<and> cursorInv pp i cur'"
  using assms
proof (induction fs arbitrary: k cur far v)
  case Nil
  then show ?case by simp
next
  case (Cons f fs)
  let ?ps = "lookupSlice pp f"
  let ?c = "advanceCursor ?ps i (lookupCursor cur f)"
  let ?cur = "cur(f \<mapsto> ?c)"
  let ?np = "if ?c < length ?ps then ?ps ! ?c else - 1"
  from Cons.prems(1) have c0: "lookupCursor cur f \<le> length ?ps"
    "\<forall>j<lookupCursor cur f. ?ps ! j \<le> i"
    by (simp_all add: cursorInv_def)
  note a = advanceCursor_nextPos [OF c0]
  have np: "?np = nextPosOf pp i f" using a(1) by (simp add: nextPosOf_def)
  have inv: "cursorInv pp i ?cur"
    using Cons.prems(1) a(2,3) by (auto simp: cursorInv_def lookupCursor_def)
  show ?case
  proof (cases "?np = - 1")
    case True
    with Cons.prems(2) have e: "cur' = ?cur" "v' = int k" by (simp_all add: Let_def)
    have "v' = scanPure (nextPosOf pp i) k (f # fs) far v" using e(2) True np by simp
    moreover have "cursorInv pp i cur'" unfolding e(1) by (rule inv)
    ultimately show ?thesis by (rule conjI)
  next
    case False
    show ?thesis
    proof (cases "?np > far")
      case True
      with False Cons.prems(2)
      have "scanFrames pp i (Suc k) fs ?cur ?np (int k) = (cur', v')" by (simp add: Let_def)
      from Cons.IH [OF inv this] False True np show ?thesis by simp
    next
      case nf: False
      with False Cons.prems(2)
      have "scanFrames pp i (Suc k) fs ?cur far v = (cur', v')" by (simp add: Let_def)
      from Cons.IH [OF inv this] False nf np show ?thesis by simp
    qed
  qed
qed

lemma scanPure_never:
  assumes "w < length fs" "np (fs ! w) = - 1" "\<forall>u<w. np (fs ! u) \<noteq> - 1"
  shows "scanPure np k fs far v = int (k + w)"
  using assms
proof (induction fs arbitrary: k far v w)
  case Nil
  then show ?case by simp
next
  case (Cons f fs)
  show ?case
  proof (cases w)
    case 0
    with Cons.prems show ?thesis by simp
  next
    case (Suc w')
    with Cons.prems have f: "np f \<noteq> - 1" by auto
    from Suc Cons.prems have p: "w' < length fs" "np (fs ! w') = - 1" "\<forall>u<w'. np (fs ! u) \<noteq> - 1"
      by auto
    from Cons.IH [OF p] f Suc show ?thesis by simp
  qed
qed

lemma scanPure_farthest:
  assumes "\<forall>f\<in>set fs. np f \<noteq> - 1"
  shows "(scanPure np k fs far v = v \<and> (\<forall>f\<in>set fs. np f \<le> far))
       \<or> (\<exists>w<length fs. scanPure np k fs far v = int (k + w) \<and> far < np (fs ! w)
            \<and> (\<forall>u<length fs. np (fs ! u) \<le> np (fs ! w))
            \<and> (\<forall>u<w. np (fs ! u) < np (fs ! w)))"
  using assms
proof (induction fs arbitrary: k far v)
  case Nil
  then show ?case by simp
next
  case (Cons f fs)
  then have f: "np f \<noteq> - 1" and rest: "\<forall>f\<in>set fs. np f \<noteq> - 1" by simp_all
  show ?case
  proof (cases "np f > far")
    case True
    then have e: "scanPure np k (f # fs) far v = scanPure np (Suc k) fs (np f) (int k)"
      using f by simp
    from Cons.IH [OF rest, of "Suc k" "np f" "int k"] show ?thesis
    proof
      assume h: "scanPure np (Suc k) fs (np f) (int k) = int k \<and> (\<forall>g\<in>set fs. np g \<le> np f)"
      have "\<forall>u<length (f # fs). np ((f # fs) ! u) \<le> np ((f # fs) ! 0)"
        using h by (auto simp: nth_Cons split: nat.splits)
      then have "\<exists>w<length (f # fs). scanPure np k (f # fs) far v = int (k + w)
            \<and> far < np ((f # fs) ! w)
            \<and> (\<forall>u<length (f # fs). np ((f # fs) ! u) \<le> np ((f # fs) ! w))
            \<and> (\<forall>u<w. np ((f # fs) ! u) < np ((f # fs) ! w))"
        using h e True by (intro exI [of _ 0]) simp
      then show ?thesis ..
    next
      assume "\<exists>w<length fs. scanPure np (Suc k) fs (np f) (int k) = int (Suc k + w)
            \<and> np f < np (fs ! w)
            \<and> (\<forall>u<length fs. np (fs ! u) \<le> np (fs ! w))
            \<and> (\<forall>u<w. np (fs ! u) < np (fs ! w))"
      then obtain w where w: "w < length fs"
        "scanPure np (Suc k) fs (np f) (int k) = int (Suc k + w)" "np f < np (fs ! w)"
        "\<forall>u<length fs. np (fs ! u) \<le> np (fs ! w)" "\<forall>u<w. np (fs ! u) < np (fs ! w)" by blast
      have "\<forall>u<length (f # fs). np ((f # fs) ! u) \<le> np ((f # fs) ! Suc w)"
        using w by (auto simp: nth_Cons split: nat.splits)
      moreover have "\<forall>u<Suc w. np ((f # fs) ! u) < np ((f # fs) ! Suc w)"
        using w by (auto simp: nth_Cons split: nat.splits)
      ultimately have "\<exists>w<length (f # fs). scanPure np k (f # fs) far v = int (k + w)
            \<and> far < np ((f # fs) ! w)
            \<and> (\<forall>u<length (f # fs). np ((f # fs) ! u) \<le> np ((f # fs) ! w))
            \<and> (\<forall>u<w. np ((f # fs) ! u) < np ((f # fs) ! w))"
        using w e True by (intro exI [of _ "Suc w"]) simp
      then show ?thesis ..
    qed
  next
    case False
    then have e: "scanPure np k (f # fs) far v = scanPure np (Suc k) fs far v"
      using f by simp
    from Cons.IH [OF rest, of "Suc k" far v] show ?thesis
    proof
      assume "scanPure np (Suc k) fs far v = v \<and> (\<forall>g\<in>set fs. np g \<le> far)"
      then show ?thesis using e False by simp
    next
      assume "\<exists>w<length fs. scanPure np (Suc k) fs far v = int (Suc k + w)
            \<and> far < np (fs ! w)
            \<and> (\<forall>u<length fs. np (fs ! u) \<le> np (fs ! w))
            \<and> (\<forall>u<w. np (fs ! u) < np (fs ! w))"
      then obtain w where w: "w < length fs"
        "scanPure np (Suc k) fs far v = int (Suc k + w)" "far < np (fs ! w)"
        "\<forall>u<length fs. np (fs ! u) \<le> np (fs ! w)" "\<forall>u<w. np (fs ! u) < np (fs ! w)" by blast
      have "\<forall>u<length (f # fs). np ((f # fs) ! u) \<le> np ((f # fs) ! Suc w)"
        using w False by (auto simp: nth_Cons split: nat.splits)
      moreover have "\<forall>u<Suc w. np ((f # fs) ! u) < np ((f # fs) ! Suc w)"
        using w False by (auto simp: nth_Cons split: nat.splits)
      ultimately have "\<exists>w<length (f # fs). scanPure np k (f # fs) far v = int (k + w)
            \<and> far < np ((f # fs) ! w)
            \<and> (\<forall>u<length (f # fs). np ((f # fs) ! u) \<le> np ((f # fs) ! w))
            \<and> (\<forall>u<w. np ((f # fs) ! u) < np ((f # fs) ! w))"
        using w e by (intro exI [of _ "Suc w"]) simp
      then show ?thesis ..
    qed
  qed
qed

lemma find_map_option: "List.find Q (map f xs) = map_option f (List.find (\<lambda>x. Q (f x)) xs)"
  by (induction xs) simp_all

lemma find_filter_conj: "List.find Q (filter P xs) = List.find (\<lambda>x. P x \<and> Q x) xs"
  by (induction xs) simp_all

lemma find_upt_skip:
  "a \<le> Suc i \<Longrightarrow> List.find (\<lambda>j. P j \<and> i < j) [a..<n] = List.find P [Suc i..<n]"
proof (induction "Suc i - a" arbitrary: a)
  case 0
  then have "a = Suc i" by simp
  moreover have "List.find (\<lambda>j. P j \<and> i < j) [Suc i..<n] = List.find P [Suc i..<n]"
    by (rule find_cong) auto
  ultimately show ?case by simp
next
  case (Suc d)
  then have le: "a \<le> i" and d: "d = Suc i - Suc a" "Suc a \<le> Suc i" by simp_all
  show ?case
  proof (cases "a < n")
    case True
    then have "[a..<n] = a # [Suc a..<n]" by (rule upt_conv_Cons)
    then show ?thesis using le Suc.hyps(1) [OF d] by simp
  next
    case False
    then show ?thesis using le by simp
  qed
qed

lemma nextPosOf_recorded:
  "nextPosOf pp (int i) q = (case nextRecorded pp i q of None \<Rightarrow> - 1 | Some x \<Rightarrow> x)"
  by (simp add: nextPosOf_def nextRecorded_def)

lemma nextRecorded_positive: "nextRecorded pp i q = Some x \<Longrightarrow> - 1 < x"
  by (auto simp: nextRecorded_def find_Some_iff)

lemma nextRecorded_build:
  "nextRecorded (buildPagePositions refs) i q = map_option int (nextOccurrence refs i q)"
proof -
  have "List.find (\<lambda>x. int i < x) (lookupSlice (buildPagePositions refs) q)
      = map_option int (List.find (\<lambda>j. refs ! j = q \<and> i < j) [0..<length refs])"
    by (simp add: buildPagePositions_lookup find_map_option find_filter_conj)
  also have "List.find (\<lambda>j. refs ! j = q \<and> i < j) [0..<length refs] = nextOccurrence refs i q"
    unfolding nextOccurrence_def by (rule find_upt_skip) simp
  finally show ?thesis by (simp add: nextRecorded_def)
qed

lemma nextPosOf_build:
  "nextPosOf (buildPagePositions refs) (int i) q
     = (case nextOccurrence refs i q of None \<Rightarrow> - 1 | Some j \<Rightarrow> int j)"
  by (simp add: nextPosOf_recorded nextRecorded_build split: option.splits)

lemma nextOccurrence_None: "nextOccurrence refs i q = None \<longleftrightarrow> q \<notin> set (drop (Suc i) refs)"
proof -
  have "q \<in> set (drop (Suc i) refs) \<longleftrightarrow> (\<exists>j. Suc i \<le> j \<and> j < length refs \<and> refs ! j = q)"
  proof
    assume "q \<in> set (drop (Suc i) refs)"
    then obtain a where a: "a < length (drop (Suc i) refs)" "drop (Suc i) refs ! a = q"
      by (auto simp: in_set_conv_nth)
    then have "Suc i \<le> Suc i + a \<and> Suc i + a < length refs \<and> refs ! (Suc i + a) = q"
      by auto
    then show "\<exists>j. Suc i \<le> j \<and> j < length refs \<and> refs ! j = q" by blast
  next
    assume "\<exists>j. Suc i \<le> j \<and> j < length refs \<and> refs ! j = q"
    then obtain j where j: "Suc i \<le> j" "j < length refs" "refs ! j = q" by blast
    then have "j - Suc i < length (drop (Suc i) refs)" "drop (Suc i) refs ! (j - Suc i) = q"
      by auto
    then show "q \<in> set (drop (Suc i) refs)" by (auto simp: in_set_conv_nth)
  qed
  then show ?thesis
    unfolding nextOccurrence_def find_None_iff by auto
qed

lemma nextOccurrence_Some:
  assumes "nextOccurrence refs i q = Some j"
  shows "i < j" "j < length refs" "refs ! j = q" "\<And>k. i < k \<Longrightarrow> k < j \<Longrightarrow> refs ! k \<noteq> q"
proof -
  from assms obtain a where a: "a < length [Suc i..<length refs]"
    "refs ! ([Suc i..<length refs] ! a) = q" "j = [Suc i..<length refs] ! a"
    "\<forall>b<a. refs ! ([Suc i..<length refs] ! b) \<noteq> q"
    unfolding nextOccurrence_def find_Some_iff by blast
  then have j: "j = Suc i + a" "Suc i + a < length refs" by auto
  show "i < j" "j < length refs" "refs ! j = q" using a j by auto
  fix k assume k: "i < k" "k < j"
  then have "k - Suc i < a" "[Suc i..<length refs] ! (k - Suc i) = k" using j by auto
  with a(4) show "refs ! k \<noteq> q" by metis
qed

lemma scanPure_specVictim:
  fixes nx :: "string \<Rightarrow> 'b::linorder option" and emb :: "'b \<Rightarrow> int"
  assumes ne: "frames \<noteq> []"
    and np: "\<And>q. np q = (case nx q of None \<Rightarrow> - 1 | Some x \<Rightarrow> emb x)"
    and pos: "\<And>q x. nx q = Some x \<Longrightarrow> - 1 < emb x"
    and le: "\<And>x y. emb x \<le> emb y \<longleftrightarrow> x \<le> y"
  shows "\<exists>v. scanPure np 0 frames (- 1) (- 1) = int v \<and> specVictim nx frames v"
proof -
  have less: "emb x < emb y \<longleftrightarrow> x < y" for x y
    using le [of y x] by (simp add: not_le [symmetric])
  have np_never: "np q = - 1 \<longleftrightarrow> nx q = None" for q
  proof (cases "nx q")
    case None
    then show ?thesis by (simp add: np)
  next
    case (Some x)
    with pos [OF Some] show ?thesis by (simp add: np)
  qed
  have np_some: "np q = emb (the (nx q))" if "nx q \<noteq> None" for q
    using that by (auto simp: np)
  show ?thesis
  proof (cases "\<exists>q\<in>set frames. nx q = None")
    case True
    then have "\<exists>w. w < length frames \<and> nx (frames ! w) = None"
      by (auto simp: in_set_conv_nth)
    then obtain w where w: "w < length frames \<and> nx (frames ! w) = None"
      "\<forall>u<w. \<not> (u < length frames \<and> nx (frames ! u) = None)"
      using exists_least_iff [of "\<lambda>w. w < length frames \<and> nx (frames ! w) = None"] by blast
    then have first: "\<forall>u<w. nx (frames ! u) \<noteq> None" by auto
    have "scanPure np 0 frames (- 1) (- 1) = int (0 + w)"
      using w first by (intro scanPure_never) (simp_all add: np_never)
    moreover have "specVictim nx frames w"
      using True w first by (simp add: specVictim_def)
    ultimately show ?thesis by auto
  next
    case False
    then have some: "nx q \<noteq> None" if "q \<in> set frames" for q using that by auto
    then have "\<forall>f\<in>set frames. np f \<noteq> - 1" by (simp add: np_never)
    from scanPure_farthest [OF this, of 0 "- 1" "- 1"]
    show ?thesis
    proof
      assume "scanPure np 0 frames (- 1) (- 1) = - 1 \<and> (\<forall>f\<in>set frames. np f \<le> - 1)"
      moreover from ne have h: "hd frames \<in> set frames" by simp
      ultimately have "np (hd frames) \<le> - 1" by auto
      moreover from some [OF h] obtain x where "nx (hd frames) = Some x" by auto
      ultimately show ?thesis using pos [of "hd frames" x] by (simp add: np)
    next
      assume "\<exists>w<length frames. scanPure np 0 frames (- 1) (- 1) = int (0 + w)
            \<and> - 1 < np (frames ! w)
            \<and> (\<forall>u<length frames. np (frames ! u) \<le> np (frames ! w))
            \<and> (\<forall>u<w. np (frames ! u) < np (frames ! w))"
      then obtain w where w: "w < length frames" "scanPure np 0 frames (- 1) (- 1) = int w"
        "\<forall>u<length frames. np (frames ! u) \<le> np (frames ! w)"
        "\<forall>u<w. np (frames ! u) < np (frames ! w)" by auto
      have conv: "np (frames ! u) = emb (the (nx (frames ! u)))" if "u < length frames" for u
        using that some by (intro np_some) simp
      have "\<forall>u<length frames. the (nx (frames ! u)) \<le> the (nx (frames ! w))"
      proof (intro allI impI)
        fix u assume u: "u < length frames"
        with w(3) have "np (frames ! u) \<le> np (frames ! w)" by simp
        then show "the (nx (frames ! u)) \<le> the (nx (frames ! w))"
          using conv [OF u] conv [OF w(1)] by (simp add: le)
      qed
      moreover have "\<forall>u<w. the (nx (frames ! u)) < the (nx (frames ! w))"
      proof (intro allI impI)
        fix u assume "u < w"
        with w(1,4) have u: "u < length frames" "np (frames ! u) < np (frames ! w)" by simp_all
        then show "the (nx (frames ! u)) < the (nx (frames ! w))"
          using conv [OF u(1)] conv [OF w(1)] by (simp add: less)
      qed
      ultimately have "specVictim nx frames w"
        unfolding specVictim_def using False w(1) by (simp only: if_False simp_thms)
      then show ?thesis using w(2) by blast
    qed
  qed
qed

lemma scanPure_recorded:
  assumes "frames \<noteq> []"
  shows "\<exists>v. scanPure (nextPosOf pp (int i)) 0 frames (- 1) (- 1) = int v
           \<and> specVictim (nextRecorded pp i) frames v"
  using assms
proof (rule scanPure_specVictim [where emb = "\<lambda>x. x"])
  show "nextPosOf pp (int i) q = (case nextRecorded pp i q of None \<Rightarrow> - 1 | Some x \<Rightarrow> x)" for q
    by (rule nextPosOf_recorded)
  show "- 1 < x" if "nextRecorded pp i q = Some x" for q x
    using that by (rule nextRecorded_positive)
  show "x \<le> y \<longleftrightarrow> x \<le> y" for x y :: int by simp
qed

lemma scanPure_trace:
  assumes "frames \<noteq> []"
  shows "\<exists>v. scanPure (nextPosOf (buildPagePositions refs) (int i)) 0 frames (- 1) (- 1) = int v
           \<and> specVictim (nextOccurrence refs i) frames v"
  using assms
proof (rule scanPure_specVictim [where emb = int])
  show "nextPosOf (buildPagePositions refs) (int i) q
      = (case nextOccurrence refs i q of None \<Rightarrow> - 1 | Some x \<Rightarrow> int x)" for q
    by (rule nextPosOf_build)
  show "- 1 < int x" if "nextOccurrence refs i q = Some x" for q x by simp
  show "int x \<le> int y \<longleftrightarrow> x \<le> y" for x y by simp
qed

lemma specVictim_trace:
  assumes "frames \<noteq> []"
    and "specVictim (nextRecorded (buildPagePositions refs) i) frames v"
  shows "specVictim (nextOccurrence refs i) frames v"
proof -
  let ?np = "nextPosOf (buildPagePositions refs) (int i)"
  from scanPure_trace [OF assms(1), of refs i] obtain w where
    w: "scanPure ?np 0 frames (- 1) (- 1) = int w" "specVictim (nextOccurrence refs i) frames w"
    by blast
  have "v = w"
  proof (cases "\<exists>q\<in>set frames. nextOccurrence refs i q = None")
    case True
    then have r: "\<exists>q\<in>set frames. nextRecorded (buildPagePositions refs) i q = None"
      by (simp add: nextRecorded_build)
    from assms(2) r have v: "v < length frames" "nextOccurrence refs i (frames ! v) = None"
      "\<forall>u<v. nextOccurrence refs i (frames ! u) \<noteq> None"
      by (simp_all add: specVictim_def nextRecorded_build)
    from w(2) True have w': "w < length frames" "nextOccurrence refs i (frames ! w) = None"
      "\<forall>u<w. nextOccurrence refs i (frames ! u) \<noteq> None"
      by (simp_all add: specVictim_def)
    show ?thesis
    proof (rule ccontr)
      assume "v \<noteq> w"
      then consider "v < w" | "w < v" by linarith
      then show False using v w' by cases auto
    qed
  next
    case False
    then have some: "\<exists>j. nextOccurrence refs i (frames ! u) = Some j" if "u < length frames" for u
      using that nth_mem by fastforce
    from False have r: "\<not> (\<exists>q\<in>set frames. nextRecorded (buildPagePositions refs) i q = None)"
      by (simp add: nextRecorded_build)
    have conv: "the (nextRecorded (buildPagePositions refs) i (frames ! u))
        = int (the (nextOccurrence refs i (frames ! u)))" if "u < length frames" for u
      using some [OF that] by (auto simp: nextRecorded_build)
    from assms(2) r have "v < length frames
      \<and> (\<forall>u<length frames. the (nextRecorded (buildPagePositions refs) i (frames ! u))
          \<le> the (nextRecorded (buildPagePositions refs) i (frames ! v)))
      \<and> (\<forall>u<v. the (nextRecorded (buildPagePositions refs) i (frames ! u))
          < the (nextRecorded (buildPagePositions refs) i (frames ! v)))"
      unfolding specVictim_def by (simp only: if_False simp_thms) blast
    then have v: "v < length frames"
      "\<forall>u<length frames. the (nextRecorded (buildPagePositions refs) i (frames ! u))
          \<le> the (nextRecorded (buildPagePositions refs) i (frames ! v))"
      "\<forall>u<v. the (nextRecorded (buildPagePositions refs) i (frames ! u))
          < the (nextRecorded (buildPagePositions refs) i (frames ! v))"
      by blast+
    from w(2) False have "w < length frames
      \<and> (\<forall>u<length frames. the (nextOccurrence refs i (frames ! u))
          \<le> the (nextOccurrence refs i (frames ! w)))
      \<and> (\<forall>u<w. the (nextOccurrence refs i (frames ! u))
          < the (nextOccurrence refs i (frames ! w)))"
      unfolding specVictim_def by (simp only: if_False simp_thms) blast
    then have w': "w < length frames"
      "\<forall>u<length frames. the (nextOccurrence refs i (frames ! u))
          \<le> the (nextOccurrence refs i (frames ! w))"
      "\<forall>u<w. the (nextOccurrence refs i (frames ! u)) < the (nextOccurrence refs i (frames ! w))"
      by blast+
    show ?thesis
    proof (rule ccontr)
      assume "v \<noteq> w"
      then consider "v < w" | "w < v" by linarith
      then show False
      proof cases
        case 1
        with w'(3) have "the (nextOccurrence refs i (frames ! v))
            < the (nextOccurrence refs i (frames ! w))" by simp
        moreover from v(2) w'(1) have "the (nextRecorded (buildPagePositions refs) i (frames ! w))
            \<le> the (nextRecorded (buildPagePositions refs) i (frames ! v))" by simp
        ultimately show False using conv [OF v(1)] conv [OF w'(1)] by simp
      next
        case 2
        with v(3) have "the (nextRecorded (buildPagePositions refs) i (frames ! w))
            < the (nextRecorded (buildPagePositions refs) i (frames ! v))" by simp
        moreover from w'(2) v(1) have "the (nextOccurrence refs i (frames ! v))
            \<le> the (nextOccurrence refs i (frames ! w))" by simp
        ultimately show False using conv [OF v(1)] conv [OF w'(1)] by simp
      qed
    qed
  qed
  with w(2) show ?thesis by simp
qed

lemma optEvict_spec:
  assumes "memoryFrames s \<noteq> []"
    and "cursorInv pp (int i) (nextUseCursor s)"
  shows "\<exists>v cursors. specVictim (nextRecorded pp i) (memoryFrames s) v
           \<and> cursorInv pp (int i) cursors
           \<and> optEvict pp i page s = Inr (memoryFrames s ! v,
                s\<lparr>nextUseCursor := cursors,
                  pageInMmemorySet := insert page (pageInMmemorySet s - {memoryFrames s ! v}),
                  memoryFrames := (memoryFrames s)[v := page]\<rparr>)"
proof -
  obtain cursors v' where sc:
    "scanFrames pp (int i) 0 (memoryFrames s) (nextUseCursor s) (- 1) (- 1) = (cursors, v')"
    by (cases "scanFrames pp (int i) 0 (memoryFrames s) (nextUseCursor s) (- 1) (- 1)")
  from scanFrames_pure [OF assms(2) sc]
  have p: "v' = scanPure (nextPosOf pp (int i)) 0 (memoryFrames s) (- 1) (- 1)"
    "cursorInv pp (int i) cursors" by simp_all
  from scanPure_recorded [OF assms(1), of pp i] p(1) obtain v where
    v: "v' = int v" "specVictim (nextRecorded pp i) (memoryFrames s) v" by auto
  then have "v < length (memoryFrames s)" by (simp add: specVictim_def)
  then have "optEvict pp i page s = Inr (memoryFrames s ! v,
                s\<lparr>nextUseCursor := cursors,
                  pageInMmemorySet := insert page (pageInMmemorySet s - {memoryFrames s ! v}),
                  memoryFrames := (memoryFrames s)[v := page]\<rparr>)"
    using sc v(1) by (simp add: optEvict_def Let_def)
  with v(2) p(2) show ?thesis by blast
qed

lemma optIter_evict_spec:
  assumes "page \<notin> pageInMmemorySet s" "\<not> int (length (memoryFrames s)) < nf"
    "memoryFrames s \<noteq> []"
    and "cursorInv pp (int i) (nextUseCursor s)"
  shows "\<exists>s' v. optIter pp nf d i page s = Inr s'
           \<and> specVictim (nextRecorded pp i) (memoryFrames s) v
           \<and> pageInMmemorySet s' = insert page (pageInMmemorySet s - {memoryFrames s ! v})
           \<and> memoryFrames s' = (memoryFrames s)[v := page]
           \<and> result s' = countFault page (result s)
           \<and> cursorInv pp (int i) (nextUseCursor s')"
proof -
  let ?s1 = "(emit d (Access (int i + 1) page) s)\<lparr>result := countFault page (result s)\<rparr>"
  have "memoryFrames ?s1 \<noteq> []" using assms(3) by simp
  moreover have "cursorInv pp (int i) (nextUseCursor ?s1)"
    using assms(4) by simp
  ultimately obtain v cursors where
    v: "specVictim (nextRecorded pp i) (memoryFrames s) v" and
    c: "cursorInv pp (int i) cursors" and
    e: "optEvict pp i page ?s1 = Inr (memoryFrames s ! v,
          ?s1\<lparr>nextUseCursor := cursors,
              pageInMmemorySet := insert page (pageInMmemorySet s - {memoryFrames s ! v}),
              memoryFrames := (memoryFrames s)[v := page]\<rparr>)"
    using optEvict_spec [of ?s1 pp i page] by auto
  show ?thesis
    using assms(1,2) v c e by (auto simp: optIter_def optPlace_def Let_def)
qed

lemma optIter_cursorInv:
  assumes "cursorInv pp (int i) (nextUseCursor s)" "optIter pp nf d i page s = Inr s'"
  shows "cursorInv pp (int i) (nextUseCursor s')"
proof (cases "page \<notin> pageInMmemorySet s \<and> \<not> int (length (memoryFrames s)) < nf")
  case True
  let ?s1 = "(emit d (Access (int i + 1) page) s)\<lparr>result := countFault page (result s)\<rparr>"
  obtain cursors v' where sc:
    "scanFrames pp (int i) 0 (memoryFrames s) (nextUseCursor s) (- 1) (- 1) = (cursors, v')"
    by (cases "scanFrames pp (int i) 0 (memoryFrames s) (nextUseCursor s) (- 1) (- 1)")
  from scanFrames_pure [OF assms(1) sc] have c: "cursorInv pp (int i) cursors" by simp
  from assms(2) True sc have "nextUseCursor s' = cursors"
    by (auto simp: optIter_def optPlace_def optEvict_def Let_def split: if_splits)
  with c show ?thesis by simp
next
  case False
  with assms(2) have "nextUseCursor s' = nextUseCursor s"
    by (auto simp: optIter_def optPlace_def Let_def split: if_splits)
  with assms(1) show ?thesis by simp
qed

lemma optLoop_cursorInv:
  assumes "cursorInv pp (int i) (nextUseCursor s)" "optLoop pp nf d i xs s = Inr s'"
  shows "cursorInv pp (int (i + length xs)) (nextUseCursor s')"
  using assms
proof (induction xs arbitrary: i s)
  case Nil
  then show ?case by simp
next
  case (Cons x xs)
  from Cons.prems(2) obtain s1 where s1: "optIter pp nf d i x s = Inr s1"
    "optLoop pp nf d (Suc i) xs s1 = Inr s'"
    by (auto split: sum.splits)
  from optIter_cursorInv [OF Cons.prems(1) s1(1)]
  have "cursorInv pp (int (Suc i)) (nextUseCursor s1)"
    by (rule cursorInv_mono) simp
  from Cons.IH [OF this s1(2)] show ?case by simp
qed

lemma optRun_cursorInv:
  assumes "optRun xs nf pp d = Inr s"
  shows "cursorInv pp (int (length xs)) (nextUseCursor s)"
proof -
  have "cursorInv pp (int 0) (nextUseCursor optInit)"
    by (simp add: optInit_def cursorInv_empty)
  moreover from assms have "optLoop pp nf d 0 xs optInit = Inr s"
    by (simp add: optRun_def split: if_splits)
  ultimately show ?thesis using optLoop_cursorInv by fastforce
qed

section \<open>Demand-paging schedules and the exchange argument\<close>

lemma schedule_mono:
  assumes "schedule k S rs n" "S \<subseteq> T"
  shows "\<exists>m\<le>n. schedule k T rs m"
  using assms
proof (induction arbitrary: T rule: schedule.induct)
  case (finished S)
  show ?case by (auto intro: schedule.finished)
next
  case (hit r S rs n)
  from hit.IH [OF hit.prems] obtain m where m: "m \<le> n" "schedule k T rs m" by blast
  moreover have "r \<in> T" using hit.hyps(1) hit.prems by auto
  ultimately show ?case by (auto intro: schedule.hit)
next
  case (miss r S S' rs n)
  show ?case
  proof (cases "r \<in> T")
    case True
    have "S' \<subseteq> T" using miss.hyps(3) miss.prems True by auto
    from miss.IH [OF this] obtain m where m: "m \<le> n" "schedule k T rs m" by blast
    with True have "schedule k T (r # rs) m" by (auto intro: schedule.hit)
    with m(1) show ?thesis by (intro exI [of _ m]) simp
  next
    case False
    have "S' \<subseteq> insert r T" using miss.hyps(3) miss.prems by auto
    with False miss.hyps have "schedule k T (r # rs) (Suc n)"
      by (intro schedule.miss [of r T S']) auto
    then show ?thesis by blast
  qed
qed

lemma schedule_one_page:
  assumes "schedule k T rs n" "T \<subseteq> insert b S" "finite T" "card T \<le> k"
  shows "\<exists>m\<le>Suc n. schedule k S rs m"
  using assms
proof (induction arbitrary: S b rule: schedule.induct)
  case (finished T)
  show ?case by (auto intro: schedule.finished)
next
  case (hit r T rs n)
  show ?case
  proof (cases "r \<in> S")
    case True
    from hit.IH [OF hit.prems] obtain m where m: "m \<le> Suc n" "schedule k S rs m" by blast
    with True have "schedule k S (r # rs) m" by (auto intro: schedule.hit)
    with m(1) show ?thesis by blast
  next
    case False
    with hit.hyps(1) hit.prems(1) have "r = b" by auto
    with hit.prems(1) have "T \<subseteq> insert r S" by simp
    with False hit.hyps hit.prems have "schedule k S (r # rs) (Suc n)"
      by (intro schedule.miss [of r S T]) auto
    then show ?thesis by blast
  qed
next
  case (miss r T T' rs n)
  show ?case
  proof (cases "r \<in> S")
    case True
    have "T' \<subseteq> insert b S" using miss.hyps(3) miss.prems(1) True by auto
    from miss.IH [OF this miss.hyps(4,5)] obtain m where
      m: "m \<le> Suc n" "schedule k S rs m" by blast
    with True have "schedule k S (r # rs) m" by (auto intro: schedule.hit)
    with m(1) show ?thesis by (intro exI [of _ m]) simp
  next
    case False
    let ?S' = "T' \<inter> insert r S"
    have "T' \<subseteq> insert b ?S'" using miss.hyps(3) miss.prems(1) by auto
    from miss.IH [OF this miss.hyps(4,5)] obtain m where
      m: "m \<le> Suc n" "schedule k ?S' rs m" by blast
    have "card ?S' \<le> card T'" using miss.hyps(4) by (intro card_mono) auto
    with miss.hyps(5) have "card ?S' \<le> k" by simp
    with False miss.hyps m(2) have "schedule k S (r # rs) (Suc m)"
      by (intro schedule.miss [of r S ?S']) auto
    with m(1) show ?thesis by (intro exI [of _ "Suc m"]) simp
  qed
qed

lemma schedule_exchange:
  assumes "schedule k T rs n" "T = insert b U" "a \<notin> U" "b \<notin> U" "notBefore b a rs"
  shows "\<exists>m\<le>n. schedule k (insert a U) rs m"
proof (cases "a = b")
  case True
  with assms(1,2) show ?thesis by auto
next
  case ab: False
  from assms show ?thesis
  proof (induction arbitrary: U rule: schedule.induct)
    case (finished T)
    show ?case by (auto intro: schedule.finished)
  next
    case (hit r T rs n)
    have rb: "r \<noteq> b" using hit.prems(4) ab by (auto simp: notBefore_def split: if_splits)
    with hit.hyps(1) hit.prems(1) have rU: "r \<in> U" by auto
    with hit.prems(2) have ra: "r \<noteq> a" by auto
    with hit.prems(4) have "notBefore b a rs" by (simp add: notBefore_def)
    from hit.IH [OF hit.prems(1,2,3) this] obtain m where
      m: "m \<le> n" "schedule k (insert a U) rs m" by blast
    with rU have "schedule k (insert a U) (r # rs) m" by (auto intro: schedule.hit)
    with m(1) show ?case by blast
  next
    case (miss r T T' rs n)
    show ?case
    proof (cases "r = a")
      case True
      have "T' \<subseteq> insert b (insert a U)" using miss.hyps(3) miss.prems(1) True by auto
      from schedule_one_page [OF miss.hyps(6) this miss.hyps(4,5)] obtain m where
        m: "m \<le> Suc n" "schedule k (insert a U) rs m" by blast
      with True have "schedule k (insert a U) (r # rs) m" by (auto intro: schedule.hit)
      with m(1) show ?thesis by blast
    next
      case ra: False
      have rb: "r \<noteq> b" and rU: "r \<notin> U" using miss.hyps(1) miss.prems(1) by auto
      have nb: "notBefore b a rs" using miss.prems(4) ra rb by (simp add: notBefore_def)
      have rnot: "r \<notin> insert a U" using ra rU by simp
      show ?thesis
      proof (cases "b \<in> T'")
        case True
        let ?V = "T' - {b}"
        have T': "T' = insert b ?V" using True by auto
        have aV: "a \<notin> ?V" using miss.hyps(3) miss.prems(1,2) ra ab by auto
        have bV: "b \<notin> ?V" by simp
        from miss.IH [OF T' aV bV nb] obtain m where
          m: "m \<le> n" "schedule k (insert a ?V) rs m" by blast
        have fin: "finite ?V" using miss.hyps(4) by simp
        have "card (insert a ?V) = Suc (card ?V)"
          using fin aV by (rule card_insert_disjoint)
        also have "\<dots> = card T'"
          using miss.hyps(4) True by (rule card_Suc_Diff1)
        finally have "card (insert a ?V) = card T'" .
        then have c: "card (insert a ?V) \<le> k" using miss.hyps(5) by simp
        have s: "insert a ?V \<subseteq> insert r (insert a U)"
          using miss.hyps(3) miss.prems(1) by auto
        have "r \<in> insert a ?V" using miss.hyps(2) rb by simp
        with rnot s fin c m(2) have "schedule k (insert a U) (r # rs) (Suc m)"
          by (intro schedule.miss [of r "insert a U" "insert a ?V"]) auto
        with m(1) show ?thesis by (intro exI [of _ "Suc m"]) simp
      next
        case False
        then have "T' \<subseteq> insert r (insert a U)" using miss.hyps(3) miss.prems(1) by auto
        with rnot miss.hyps have "schedule k (insert a U) (r # rs) (Suc n)"
          by (intro schedule.miss [of r "insert a U" T']) auto
        then show ?thesis by blast
      qed
    qed
  qed
qed

inductive_cases scheduleConsE: "schedule k S (r # rs) n"

lemma fifoLoop_schedule:
  assumes "1 \<le> nf" "memInv nf s" "fifoLoop nf d i xs s = Inr s'"
  shows "\<exists>n. schedule (nat nf) (pageInMmemorySet s) xs n
           \<and> pageFaults (result s') = pageFaults (result s) + int n"
  using assms(2,3)
proof (induction xs arbitrary: i s)
  case Nil
  then show ?case by (auto intro: schedule.finished)
next
  case (Cons x xs)
  from fifoIter_inv [OF assms(1) Cons.prems(1), of d i x] obtain s1 where
    s1: "fifoIter nf d i x s = Inr s1" "memInv nf s1" "stepped x s s1" by blast
  with Cons.prems(2) have "fifoLoop nf d (Suc i) xs s1 = Inr s'" by simp
  from Cons.IH [OF s1(2) this] obtain n where
    n: "schedule (nat nf) (pageInMmemorySet s1) xs n"
    "pageFaults (result s') = pageFaults (result s1) + int n" by blast
  show ?case
  proof (cases "x \<in> pageInMmemorySet s")
    case True
    with s1(3) have "pageInMmemorySet s1 = pageInMmemorySet s" "result s1 = result s"
      by (simp_all add: stepped_def)
    with n True have "schedule (nat nf) (pageInMmemorySet s) (x # xs) n
           \<and> pageFaults (result s') = pageFaults (result s) + int n"
      by (auto intro: schedule.hit)
    then show ?thesis by blast
  next
    case False
    with s1(3) have r: "result s1 = countFault x (result s)" "x \<in> pageInMmemorySet s1"
      "pageInMmemorySet s1 \<subseteq> insert x (pageInMmemorySet s)"
      by (simp_all add: stepped_def)
    have "set (memoryFrames s1) = pageInMmemorySet s1" using s1(2) by (simp add: memInv_def)
    then have fin: "finite (pageInMmemorySet s1)" using finite_set [of "memoryFrames s1"] by simp
    have "card (pageInMmemorySet s1) = length (memoryFrames s1)"
      using s1(2) distinct_card [of "memoryFrames s1"] by (simp add: memInv_def)
    moreover have "int (length (memoryFrames s1)) \<le> nf" using s1(2) by (simp add: memInv_def)
    ultimately have c: "card (pageInMmemorySet s1) \<le> nat nf" by linarith
    from False r(2,3) fin c n(1)
    have "schedule (nat nf) (pageInMmemorySet s) (x # xs) (Suc n)"
      by (rule schedule.miss)
    moreover have "pageFaults (result s') = pageFaults (result s) + int (Suc n)"
      using n(2) r(1) by simp
    ultimately show ?thesis by blast
  qed
qed

lemma specVictim_notBefore:
  assumes "specVictim (nextOccurrence refs i) frames v" "y \<in> set frames"
  shows "notBefore (frames ! v) y (drop (Suc i) refs)"
  unfolding notBefore_def
proof
  let ?q = "frames ! v"
  let ?xs = "drop (Suc i) refs"
  let ?tw = "takeWhile (\<lambda>x. x \<noteq> y) ?xs"
  assume "?q \<in> set ?tw"
  then obtain a where a: "a < length ?tw" "?tw ! a = ?q" by (auto simp: in_set_conv_nth)
  have len: "length ?tw \<le> length ?xs" by (rule length_takeWhile_le)
  have nth: "?tw ! b = ?xs ! b" if "b < length ?tw" for b using that by (rule takeWhile_nth)
  have noy: "?xs ! b \<noteq> y" if "b \<le> a" for b
  proof -
    from that a(1) have b: "b < length ?tw" by simp
    then have "?tw ! b \<in> set ?tw" by simp
    then have "?tw ! b \<noteq> y" by (auto dest: set_takeWhileD)
    with nth [OF b] show ?thesis by simp
  qed
  have qa: "?xs ! a = ?q" using a nth by simp
  have alen: "Suc i + a < length refs" using a(1) len by simp
  then have refa: "refs ! (Suc i + a) = ?q" using qa by simp
  have "?q \<in> set ?xs" using \<open>?q \<in> set ?tw\<close> by (auto dest: set_takeWhileD)
  then have qsome: "nextOccurrence refs i ?q \<noteq> None" by (simp add: nextOccurrence_None)
  from assms(1) have v: "v < length frames" by (simp add: specVictim_def)
  have all: "\<not> (\<exists>q\<in>set frames. nextOccurrence refs i q = None)"
  proof
    assume "\<exists>q\<in>set frames. nextOccurrence refs i q = None"
    with assms(1) have "nextOccurrence refs i ?q = None" by (simp add: specVictim_def)
    with qsome show False by simp
  qed
  with assms(1) have far: "\<forall>u<length frames. the (nextOccurrence refs i (frames ! u))
        \<le> the (nextOccurrence refs i ?q)"
    by (simp add: specVictim_def)
  from assms(2) obtain u where u: "u < length frames" "frames ! u = y"
    by (auto simp: in_set_conv_nth)
  from all assms(2) obtain jy where jy: "nextOccurrence refs i y = Some jy" by auto
  from qsome obtain jq where jq: "nextOccurrence refs i ?q = Some jq" by auto
  from far u jy jq have le: "jy \<le> jq" by auto
  have "jq \<le> Suc i + a"
  proof (rule ccontr)
    assume "\<not> jq \<le> Suc i + a"
    then have "i < Suc i + a" "Suc i + a < jq" by simp_all
    from nextOccurrence_Some(4) [OF jq this] refa show False by simp
  qed
  with le have b: "jy - Suc i \<le> a" by simp
  from nextOccurrence_Some(1,2,3) [OF jy] have y: "i < jy" "jy < length refs" "refs ! jy = y" .
  then have "?xs ! (jy - Suc i) = y" by simp
  with noy [OF b] show False by simp
qed

lemma full_schedule_evicts:
  assumes "finite S" "card S = k" "x \<notin> S" "x \<in> S'" "S' \<subseteq> insert x S" "finite S'" "card S' \<le> k"
  shows "\<exists>y\<in>S. S' \<subseteq> insert x (S - {y})"
proof -
  have "\<not> S \<subseteq> S'"
  proof
    assume "S \<subseteq> S'"
    with assms(4) have "insert x S \<subseteq> S'" by simp
    with assms(6) have "card (insert x S) \<le> card S'" by (intro card_mono)
    with assms(1,2,3,7) show False by simp
  qed
  then obtain y where "y \<in> S" "y \<notin> S'" by blast
  with assms(5) show ?thesis by blast
qed

lemma schedule_Cons:
  "schedule k S (r # rs) n \<longleftrightarrow>
     (r \<in> S \<and> schedule k S rs n)
     \<or> (r \<notin> S \<and> (\<exists>S' n'. n = Suc n' \<and> r \<in> S' \<and> S' \<subseteq> insert r S \<and> finite S'
                      \<and> card S' \<le> k \<and> schedule k S' rs n'))"
  by (auto elim: scheduleConsE intro: schedule.intros)

lemma victim_exchange:
  assumes sch: "schedule k S' xs n'"
    and S: "finite S" "card S = k" "x \<notin> S" "q \<in> S"
    and S': "x \<in> S'" "S' \<subseteq> insert x S" "finite S'" "card S' \<le> k"
    and far: "\<And>y. y \<in> S \<Longrightarrow> notBefore q y xs"
  shows "\<exists>m\<le>n'. schedule k (insert x (S - {q})) xs m"
proof -
  from full_schedule_evicts [OF S(1,2,3) S'] obtain y where
    y: "y \<in> S" "S' \<subseteq> insert x (S - {y})" by blast
  from schedule_mono [OF sch y(2)] obtain m1 where
    m1: "m1 \<le> n'" "schedule k (insert x (S - {y})) xs m1" by blast
  show ?thesis
  proof (cases "y = q")
    case True
    with m1 show ?thesis by blast
  next
    case False
    let ?U = "insert x (S - {y} - {q})"
    have T: "insert x (S - {y}) = insert q ?U" using S(4) False by auto
    have aU: "y \<notin> ?U" using y(1) S(3) by auto
    have bU: "q \<notin> ?U" using S(3,4) by auto
    from schedule_exchange [OF m1(2) T aU bU far [OF y(1)]] obtain m where
      m: "m \<le> m1" "schedule k (insert y ?U) xs m" by blast
    have "insert y ?U = insert x (S - {q})" using y(1) False by auto
    with m m1(1) show ?thesis by (intro exI [of _ m]) simp
  qed
qed

lemma optLoop_optimal:
  assumes nf: "1 \<le> nf"
  shows "memInv nf s \<Longrightarrow> cursorInv (buildPagePositions refs) (int i) (nextUseCursor s)
     \<Longrightarrow> drop i refs = xs
     \<Longrightarrow> optLoop (buildPagePositions refs) nf d i xs s = Inr s'
     \<Longrightarrow> schedule (nat nf) (pageInMmemorySet s) xs n
     \<Longrightarrow> pageFaults (result s') \<le> pageFaults (result s) + int n"
proof (induction xs arbitrary: i s n)
  case Nil
  then show ?case by simp
next
  case (Cons x xs)
  let ?pp = "buildPagePositions refs"
  let ?S = "pageInMmemorySet s"
  let ?k = "nat nf"
  have i: "i < length refs"
  proof (rule ccontr)
    assume "\<not> i < length refs"
    then have "drop i refs = []" by simp
    with Cons.prems(3) show False by simp
  qed
  have nth: "refs ! i = x" using Cons.prems(3) by (rule nth_via_drop)
  have "drop (Suc i) refs = tl (drop i refs)" by (simp add: drop_Suc tl_drop)
  then have rest: "drop (Suc i) refs = xs" using Cons.prems(3) by simp
  from optIter_inv [OF nf Cons.prems(1), of ?pp d i x] obtain s1 where
    s1: "optIter ?pp nf d i x s = Inr s1" "memInv nf s1" "stepped x s s1" by blast
  with Cons.prems(4) have loop: "optLoop ?pp nf d (Suc i) xs s1 = Inr s'" by simp
  from optIter_cursorInv [OF Cons.prems(2) s1(1)]
  have c1: "cursorInv ?pp (int (Suc i)) (nextUseCursor s1)" by (rule cursorInv_mono) simp
  note IH = Cons.IH [OF s1(2) c1 rest loop]
  show ?case
  proof (cases "x \<in> ?S")
    case True
    with Cons.prems(5) have "schedule ?k ?S xs n" by (simp add: schedule_Cons)
    moreover from True s1(3) have "pageInMmemorySet s1 = ?S" "result s1 = result s"
      by (simp_all add: stepped_def)
    ultimately show ?thesis using IH [of n] by simp
  next
    case miss: False
    with Cons.prems(5) obtain S' n' where
      S': "n = Suc n'" "x \<in> S'" "S' \<subseteq> insert x ?S" "finite S'" "card S' \<le> ?k"
      "schedule ?k S' xs n'"
      unfolding schedule_Cons by blast
    from miss s1(3) have pf: "pageFaults (result s1) = pageFaults (result s) + 1"
      by (simp add: stepped_def)
    have "\<exists>m\<le>n'. schedule ?k (pageInMmemorySet s1) xs m"
    proof (cases "int (length (memoryFrames s)) < nf")
      case True
      from optIter_add [OF miss True, of ?pp d i] s1(1)
      have "pageInMmemorySet s1 = insert x ?S" by auto
      with schedule_mono [OF S'(6) S'(3)] show ?thesis by simp
    next
      case False
      with nf have ne: "memoryFrames s \<noteq> []" by auto
      from optIter_evict_spec [OF miss False ne Cons.prems(2), of d] s1(1) nth obtain v where
        vr: "specVictim (nextRecorded ?pp i) (memoryFrames s) v" and
        vs: "pageInMmemorySet s1 = insert x (?S - {memoryFrames s ! v})" by auto
      note v = specVictim_trace [OF ne vr] vs
      have st: "set (memoryFrames s) = ?S" and d: "distinct (memoryFrames s)"
        and le: "int (length (memoryFrames s)) \<le> nf"
        using Cons.prems(1) by (simp_all add: memInv_def)
      have fin: "finite ?S" using st finite_set [of "memoryFrames s"] by simp
      have "card ?S = length (memoryFrames s)" using st d distinct_card by fastforce
      with False le have card: "card ?S = ?k" by linarith
      from v(1) have "v < length (memoryFrames s)" by (simp add: specVictim_def)
      with st have q: "memoryFrames s ! v \<in> ?S" using nth_mem by blast
      have far: "notBefore (memoryFrames s ! v) y xs" if "y \<in> ?S" for y
        using specVictim_notBefore [OF v(1), of y] that st rest by simp
      from victim_exchange [OF S'(6) fin card miss q S'(2,3,4,5) far]
      show ?thesis using v(2) by simp
    qed
    then obtain m where m: "m \<le> n'" "schedule ?k (pageInMmemorySet s1) xs m" by blast
    from IH [OF m(2)] pf m(1) S'(1) show ?thesis by simp
  qed
qed

section \<open>The claims\<close>

text \<open>
  Claim C1, as amended. On the trace \<open>[A,B,C,A,B,D,A,B,C,D]\<close> with three frames,
  \<open>fifoAlgorithm\<close> returns \<open>pageFaults = 8\<close> and \<open>optimalAlgorithmOptimized\<close>, given
  the positions built from that trace, returns \<open>pageFaults = 5\<close>.
\<close>
theorem C1_trace_fault_counts:
  "map_sum id pageFaults
     (fifoAlgorithm [''A'', ''B'', ''C'', ''A'', ''B'', ''D'', ''A'', ''B'', ''C'', ''D''] 3
        didacticMode) = Inr 8
   \<and> map_sum id pageFaults
     (optimalAlgorithmOptimized
        [''A'', ''B'', ''C'', ''A'', ''B'', ''D'', ''A'', ''B'', ''C'', ''D''] 3
        (buildPagePositions [''A'', ''B'', ''C'', ''A'', ''B'', ''D'', ''A'', ''B'', ''C'', ''D''])
        didacticMode) = Inr 5"
proof
  have "map_sum id pageFaults
     (fifoAlgorithm [''A'', ''B'', ''C'', ''A'', ''B'', ''D'', ''A'', ''B'', ''C'', ''D''] 3
        False) = Inr 8"
    by code_simp
  then show "map_sum id pageFaults
     (fifoAlgorithm [''A'', ''B'', ''C'', ''A'', ''B'', ''D'', ''A'', ''B'', ''C'', ''D''] 3
        didacticMode) = Inr 8"
    by (simp only: fifoAlgorithm_didactic [of _ _ didacticMode False])
  have "map_sum id pageFaults
     (optimalAlgorithmOptimized
        [''A'', ''B'', ''C'', ''A'', ''B'', ''D'', ''A'', ''B'', ''C'', ''D''] 3
        (buildPagePositions [''A'', ''B'', ''C'', ''A'', ''B'', ''D'', ''A'', ''B'', ''C'', ''D''])
        False) = Inr 5"
    by code_simp
  then show "map_sum id pageFaults
     (optimalAlgorithmOptimized
        [''A'', ''B'', ''C'', ''A'', ''B'', ''D'', ''A'', ''B'', ''C'', ''D''] 3
        (buildPagePositions [''A'', ''B'', ''C'', ''A'', ''B'', ''D'', ''A'', ''B'', ''C'', ''D''])
        didacticMode) = Inr 5"
    by (simp only: optimalAlgorithmOptimized_didactic [of _ _ _ didacticMode False])
qed

text \<open>
  Claim C1 as stated does not hold: the counts 9 and 7 are not what the program returns.
\<close>
theorem C1_claimed_counts_refuted:
  "\<not> (map_sum id pageFaults
     (fifoAlgorithm [''A'', ''B'', ''C'', ''A'', ''B'', ''D'', ''A'', ''B'', ''C'', ''D''] 3
        False) = Inr 9
   \<and> map_sum id pageFaults
     (optimalAlgorithmOptimized
        [''A'', ''B'', ''C'', ''A'', ''B'', ''D'', ''A'', ''B'', ''C'', ''D''] 3
        (buildPagePositions [''A'', ''B'', ''C'', ''A'', ''B'', ''D'', ''A'', ''B'', ''C'', ''D''])
        False) = Inr 7)"
proof -
  have "map_sum id pageFaults
     (fifoAlgorithm [''A'', ''B'', ''C'', ''A'', ''B'', ''D'', ''A'', ''B'', ''C'', ''D''] 3
        False) = Inr 8"
    by code_simp
  then show ?thesis by simp
qed

text \<open>
  Claim C2, as amended. The simulators do not check \<open>numFrames\<close>; the caller \<open>main\<close>
  does: it exits when the physical memory is below 4096 bytes and otherwise passes a
  \<open>numFrames\<close> of at least one. Called with \<open>numFrames = 0\<close> on a non-empty trace, both
  simulators panic at the first reference, and \<open>optimalAlgorithmOptimized\<close> panics for
  every negative \<open>numFrames\<close>.
\<close>
theorem C2_capacity_checked_by_caller:
  "(physicalMemoryBytes < 4096 \<longrightarrow> mainNumFrames physicalMemoryBytes = None)
   \<and> (\<forall>n. mainNumFrames physicalMemoryBytes = Some n \<longrightarrow> 1 \<le> n)
   \<and> (pageReferences \<noteq> [] \<longrightarrow>
        fifoAlgorithm pageReferences 0 didacticMode = Inl NilPointerDereference
        \<and> optimalAlgorithmOptimized pageReferences 0 pagePositions didacticMode
            = Inl IndexOutOfRange)
   \<and> (numFrames < 0 \<longrightarrow>
        optimalAlgorithmOptimized pageReferences numFrames pagePositions didacticMode
          = Inl MakesliceCapOutOfRange)"
proof (intro conjI impI allI)
  show "mainNumFrames physicalMemoryBytes = None" if "physicalMemoryBytes < 4096"
    using that by (simp add: mainNumFrames_def pageSizeBytes_def)
  show "1 \<le> n" if "mainNumFrames physicalMemoryBytes = Some n" for n
    using that by (auto simp: mainNumFrames_def pageSizeBytes_def split: if_splits)
  show "fifoAlgorithm pageReferences 0 didacticMode = Inl NilPointerDereference"
    if "pageReferences \<noteq> []"
    using that
    by (cases pageReferences)
       (simp_all add: fifoAlgorithm_def fifoRun_def fifoIter_zero_frames fifoInit_def)
  show "optimalAlgorithmOptimized pageReferences 0 pagePositions didacticMode = Inl IndexOutOfRange"
    if "pageReferences \<noteq> []"
    using that
    by (cases pageReferences)
       (simp_all add: optimalAlgorithmOptimized_def optRun_def optIter_zero_frames optInit_def
          maxAlloc_def stringSize_def)
  show "optimalAlgorithmOptimized pageReferences numFrames pagePositions didacticMode
          = Inl MakesliceCapOutOfRange" if "numFrames < 0"
    using that by (simp add: optimalAlgorithmOptimized_def optRun_def)
qed

text \<open>The theorem at a concrete input.\<close>
theorem C2_capacity_checked_by_caller_witness:
  "(4095::int) < 4096 \<and> mainNumFrames 4095 = None
   \<and> mainNumFrames 8192 = Some 2
   \<and> [''A''] \<noteq> []
   \<and> fifoAlgorithm [''A''] 0 False = Inl NilPointerDereference
   \<and> optimalAlgorithmOptimized [''A''] 0 (buildPagePositions [''A'']) False = Inl IndexOutOfRange
   \<and> (- 1 :: int) < 0
   \<and> optimalAlgorithmOptimized [''A''] (- 1) (buildPagePositions [''A'']) False
       = Inl MakesliceCapOutOfRange"
  using C2_capacity_checked_by_caller [of 4095 "[''A'']" False "buildPagePositions [''A'']" "- 1"]
  by (simp add: mainNumFrames_def pageSizeBytes_def)

text \<open>
  Claim C2 as stated does not hold: with a negative \<open>numFrames\<close>, \<open>fifoAlgorithm\<close> does
  not refuse to run; it returns a result.
\<close>
theorem C2_fifo_runs_with_negative_capacity:
  "map_sum id pageFaults (fifoAlgorithm [''A'', ''B'', ''A''] (- 1) False) = Inr 2"
  by code_simp

text \<open>
  Claim C3. With at least one frame, \<open>fifoAlgorithm\<close> returns a result, and every result
  that \<open>optimalAlgorithmOptimized\<close> returns, given the positions built from the trace, has
  a \<open>pageFaults\<close> that is at most the one of \<open>fifoAlgorithm\<close> on the same trace and number
  of frames.
\<close>
theorem C3_optimal_le_fifo:
  assumes "1 \<le> numFrames"
  shows "\<exists>rf. fifoAlgorithm pageReferences numFrames didacticMode' = Inr rf
           \<and> (\<forall>ro. optimalAlgorithmOptimized pageReferences numFrames
                        (buildPagePositions pageReferences) didacticMode = Inr ro
                 \<longrightarrow> pageFaults ro \<le> pageFaults rf)"
proof -
  let ?pp = "buildPagePositions pageReferences"
  from fifoRun_inv [OF assms, of pageReferences didacticMode'] obtain sf where
    sf: "fifoRun pageReferences numFrames didacticMode' = Inr sf" by blast
  have fi: "memInv numFrames fifoInit" and oi: "memInv numFrames optInit"
    using assms by (simp_all add: memInv_fifoInit memInv_optInit)
  from sf have "fifoLoop numFrames didacticMode' 0 pageReferences fifoInit = Inr sf"
    by (simp add: fifoRun_def)
  from fifoLoop_schedule [OF assms fi this] obtain n where
    n: "schedule (nat numFrames) {} pageReferences n" "pageFaults (result sf) = int n"
    by (auto simp: fifoInit_def emptyResult_def)
  have c: "cursorInv ?pp (int 0) (nextUseCursor optInit)"
    by (simp add: optInit_def cursorInv_empty)
  have sch: "schedule (nat numFrames) (pageInMmemorySet optInit) pageReferences n"
    using n(1) by (simp add: optInit_def)
  have "pageFaults ro \<le> pageFaults (result sf)"
    if "optimalAlgorithmOptimized pageReferences numFrames ?pp didacticMode = Inr ro" for ro
  proof -
    from that obtain so where
      so: "optRun pageReferences numFrames ?pp didacticMode = Inr so" "ro = result so"
      by (auto simp: optimalAlgorithmOptimized_def split: sum.splits)
    then have ol: "optLoop ?pp numFrames didacticMode 0 pageReferences optInit = Inr so"
      by (simp add: optRun_def split: if_splits)
    from optLoop_optimal [OF assms oi c _ ol sch]
    have "pageFaults (result so) \<le> int n" by (simp add: optInit_def emptyResult_def)
    with so(2) n(2) show ?thesis by simp
  qed
  with sf show ?thesis by (simp add: fifoAlgorithm_def)
qed

text \<open>The theorem at a concrete input, where both simulators return.\<close>
theorem C3_optimal_le_fifo_witness:
  "(1::int) \<le> 3
   \<and> (\<exists>ro rf. optimalAlgorithmOptimized
          [''A'', ''B'', ''C'', ''A'', ''B'', ''D'', ''A'', ''B'', ''C'', ''D''] 3
          (buildPagePositions [''A'', ''B'', ''C'', ''A'', ''B'', ''D'', ''A'', ''B'', ''C'', ''D''])
          False = Inr ro
        \<and> fifoAlgorithm [''A'', ''B'', ''C'', ''A'', ''B'', ''D'', ''A'', ''B'', ''C'', ''D''] 3
            False = Inr rf
        \<and> pageFaults ro \<le> pageFaults rf)"
proof -
  let ?tr = "[''A'', ''B'', ''C'', ''A'', ''B'', ''D'', ''A'', ''B'', ''C'', ''D'']"
  have h: "(1::int) \<le> 3" by simp
  have "stringSize * 3 \<le> maxAlloc" by (simp add: stringSize_def maxAlloc_def)
  from optRun_returns [OF h this, of ?tr "buildPagePositions ?tr" False] obtain so where
    "optRun ?tr 3 (buildPagePositions ?tr) False = Inr so" by blast
  then have "optimalAlgorithmOptimized ?tr 3 (buildPagePositions ?tr) False = Inr (result so)"
    by (simp add: optimalAlgorithmOptimized_def)
  with C3_optimal_le_fifo [OF h, of ?tr False False] h show ?thesis by blast
qed

text \<open>
  Claim C4. With at least one frame, \<open>fifoAlgorithm\<close> returns a result in which
  \<open>pageFaults\<close> is the sum of all values of \<open>loadCounts\<close>, and so is every result that
  \<open>optimalAlgorithmOptimized\<close> returns. The same holds in the state after any number \<open>j\<close>
  of iterations, through which the run on the whole trace passes.
\<close>
theorem C4_pageFaults_sum_loadCounts:
  assumes "1 \<le> numFrames"
  shows "(\<exists>r. fifoAlgorithm pageReferences numFrames didacticMode = Inr r
            \<and> pageFaults r = sumLoadCounts r)
       \<and> (\<forall>r. optimalAlgorithmOptimized pageReferences numFrames pagePositions didacticMode = Inr r
            \<longrightarrow> pageFaults r = sumLoadCounts r)
       \<and> (\<exists>s. fifoRun (take j pageReferences) numFrames didacticMode = Inr s
            \<and> fifoRun pageReferences numFrames didacticMode
                = fifoLoop numFrames didacticMode (length (take j pageReferences))
                    (drop j pageReferences) s
            \<and> pageFaults (result s) = sumLoadCounts (result s))
       \<and> optRun pageReferences numFrames pagePositions didacticMode
            = (case optRun (take j pageReferences) numFrames pagePositions didacticMode of
                 Inl e \<Rightarrow> Inl e
               | Inr s \<Rightarrow> optLoop pagePositions numFrames didacticMode
                           (length (take j pageReferences)) (drop j pageReferences) s)
       \<and> (\<forall>s. optRun (take j pageReferences) numFrames pagePositions didacticMode = Inr s
            \<longrightarrow> pageFaults (result s) = sumLoadCounts (result s))"
proof (intro conjI allI impI)
  from fifoRun_inv [OF assms, of pageReferences didacticMode]
  show "\<exists>r. fifoAlgorithm pageReferences numFrames didacticMode = Inr r
            \<and> pageFaults r = sumLoadCounts r"
    by (auto simp: fifoAlgorithm_def memInv_def loadsInv_def)
next
  fix r
  assume "optimalAlgorithmOptimized pageReferences numFrames pagePositions didacticMode = Inr r"
  then obtain s where
    s: "optRun pageReferences numFrames pagePositions didacticMode = Inr s" "r = result s"
    by (auto simp: optimalAlgorithmOptimized_def split: sum.splits)
  from optRun_inv [OF assms s(1)] s(2) show "pageFaults r = sumLoadCounts r"
    by (simp add: memInv_def loadsInv_def)
next
  from fifoRun_inv [OF assms, of "take j pageReferences" didacticMode] obtain s where
    s: "fifoRun (take j pageReferences) numFrames didacticMode = Inr s" "memInv numFrames s"
    by blast
  with fifoRun_prefix [of pageReferences numFrames didacticMode j]
  show "\<exists>s. fifoRun (take j pageReferences) numFrames didacticMode = Inr s
            \<and> fifoRun pageReferences numFrames didacticMode
                = fifoLoop numFrames didacticMode (length (take j pageReferences))
                    (drop j pageReferences) s
            \<and> pageFaults (result s) = sumLoadCounts (result s)"
    by (simp add: memInv_def loadsInv_def)
next
  show "optRun pageReferences numFrames pagePositions didacticMode
            = (case optRun (take j pageReferences) numFrames pagePositions didacticMode of
                 Inl e \<Rightarrow> Inl e
               | Inr s \<Rightarrow> optLoop pagePositions numFrames didacticMode
                           (length (take j pageReferences)) (drop j pageReferences) s)"
    by (rule optRun_prefix)
next
  fix s
  assume "optRun (take j pageReferences) numFrames pagePositions didacticMode = Inr s"
  from optRun_inv [OF assms this] show "pageFaults (result s) = sumLoadCounts (result s)"
    by (simp add: memInv_def loadsInv_def)
qed

text \<open>The theorem at a concrete input, where both simulators return.\<close>
theorem C4_pageFaults_sum_loadCounts_witness:
  "(1::int) \<le> 2
   \<and> (\<exists>r. fifoAlgorithm [''A'', ''B'', ''C'', ''A''] 2 False = Inr r
         \<and> pageFaults r = sumLoadCounts r)
   \<and> (\<exists>r. optimalAlgorithmOptimized [''A'', ''B'', ''C'', ''A''] 2
              (buildPagePositions [''A'', ''B'', ''C'', ''A'']) False = Inr r
         \<and> pageFaults r = sumLoadCounts r)"
proof -
  let ?tr = "[''A'', ''B'', ''C'', ''A'']"
  have h: "(1::int) \<le> 2" by simp
  have "stringSize * 2 \<le> maxAlloc" by (simp add: stringSize_def maxAlloc_def)
  from optRun_returns [OF h this, of ?tr "buildPagePositions ?tr" False] obtain so where
    "optRun ?tr 2 (buildPagePositions ?tr) False = Inr so" by blast
  then have "optimalAlgorithmOptimized ?tr 2 (buildPagePositions ?tr) False = Inr (result so)"
    by (simp add: optimalAlgorithmOptimized_def)
  with C4_pageFaults_sum_loadCounts [OF h, of ?tr False "buildPagePositions ?tr" 3] h
  show ?thesis by blast
qed

text \<open>
  Claim C5. At every full-memory miss of a run of \<open>optimalAlgorithmOptimized\<close> (the state
  \<open>s\<close> reached after \<open>i\<close> iterations, the page at index \<open>i\<close> not resident, no free
  frame), whatever \<open>pagePositions\<close> it is given, the iteration overwrites the frame \<open>v\<close>
  that the specification designates for the next positions recorded in \<open>pagePositions\<close>:
  the first frame whose page has no position after \<open>i\<close> if there is one, otherwise the
  first frame among those whose page has the largest next position. For the positions
  built from the trace, the next recorded position of a page is its next occurrence in
  the trace.
\<close>
theorem C5_victim_selection:
  assumes "1 \<le> numFrames" and "i < length pageReferences"
    and "optRun (take i pageReferences) numFrames pagePositions didacticMode = Inr s"
    and "pageReferences ! i \<notin> pageInMmemorySet s"
    and "\<not> int (length (memoryFrames s)) < numFrames"
  shows "(\<exists>v s'. optIter pagePositions numFrames didacticMode i (pageReferences ! i) s = Inr s'
            \<and> optRun (take (Suc i) pageReferences) numFrames pagePositions didacticMode = Inr s'
            \<and> specVictim (nextRecorded pagePositions i) (memoryFrames s) v
            \<and> memoryFrames s' = (memoryFrames s)[v := pageReferences ! i]
            \<and> pageInMmemorySet s'
                 = insert (pageReferences ! i) (pageInMmemorySet s - {memoryFrames s ! v}))
       \<and> (\<forall>q. nextRecorded (buildPagePositions pageReferences) i q
                 = map_option int (nextOccurrence pageReferences i q))"
proof
  have len: "length (take i pageReferences) = i" using assms(2) by simp
  from optRun_cursorInv [OF assms(3)]
  have c: "cursorInv pagePositions (int i) (nextUseCursor s)"
    by (simp only: len)
  from assms(1,5) have ne: "memoryFrames s \<noteq> []" by auto
  from optIter_evict_spec [OF assms(4,5) ne c, of didacticMode] obtain s' v where
    s': "optIter pagePositions numFrames didacticMode i (pageReferences ! i) s = Inr s'"
      "specVictim (nextRecorded pagePositions i) (memoryFrames s) v"
      "pageInMmemorySet s'
         = insert (pageReferences ! i) (pageInMmemorySet s - {memoryFrames s ! v})"
      "memoryFrames s' = (memoryFrames s)[v := pageReferences ! i]" by blast
  have "take (Suc i) pageReferences = take i pageReferences @ [pageReferences ! i]"
    using assms(2) by (rule take_Suc_conv_app_nth)
  then have "optRun (take (Suc i) pageReferences) numFrames pagePositions didacticMode = Inr s'"
    using assms(3) s'(1) len by (simp add: optRun_snoc)
  with s' show "\<exists>v s'. optIter pagePositions numFrames didacticMode i (pageReferences ! i) s
                = Inr s'
            \<and> optRun (take (Suc i) pageReferences) numFrames pagePositions didacticMode = Inr s'
            \<and> specVictim (nextRecorded pagePositions i) (memoryFrames s) v
            \<and> memoryFrames s' = (memoryFrames s)[v := pageReferences ! i]
            \<and> pageInMmemorySet s'
                 = insert (pageReferences ! i) (pageInMmemorySet s - {memoryFrames s ! v})"
    by blast
  show "\<forall>q. nextRecorded (buildPagePositions pageReferences) i q
                 = map_option int (nextOccurrence pageReferences i q)"
    by (simp add: nextRecorded_build)
qed

text \<open>
  The theorem at a concrete input where the two resident pages have the same next
  recorded position: with frames \<open>[A, B]\<close> and position 5 recorded for both, the miss on
  \<open>C\<close> at index 2 overwrites the first frame.
\<close>
theorem C5_victim_selection_witness:
  "\<exists>s s'. optRun (take 2 [''A'', ''B'', ''C'']) 2 [''A'' \<mapsto> [5], ''B'' \<mapsto> [5]] False = Inr s
     \<and> memoryFrames s = [''A'', ''B'']
     \<and> ''C'' \<notin> pageInMmemorySet s
     \<and> nextRecorded [''A'' \<mapsto> [5], ''B'' \<mapsto> [5]] 2 ''A'' = Some 5
     \<and> nextRecorded [''A'' \<mapsto> [5], ''B'' \<mapsto> [5]] 2 ''B'' = Some 5
     \<and> optIter [''A'' \<mapsto> [5], ''B'' \<mapsto> [5]] 2 False 2 ''C'' s = Inr s'
     \<and> memoryFrames s' = [''C'', ''B'']"
proof -
  let ?tr = "[''A'', ''B'', ''C'']"
  let ?pp = "[''A'' \<mapsto> [5::int], ''B'' \<mapsto> [5]]"
  have "map_sum id memoryFrames (optRun (take 2 ?tr) 2 ?pp False) = Inr [''A'', ''B'']"
    by code_simp
  then obtain s where s: "optRun (take 2 ?tr) 2 ?pp False = Inr s"
    "memoryFrames s = [''A'', ''B'']"
    by (cases "optRun (take 2 ?tr) 2 ?pp False") auto
  have h1: "(1::int) \<le> 2" and h2: "2 < length ?tr" by simp_all
  from optRun_inv [OF h1 s(1)] have "memInv 2 s" by simp
  then have mem: "pageInMmemorySet s = set (memoryFrames s)" by (simp add: memInv_def)
  have h4: "?tr ! 2 \<notin> pageInMmemorySet s" using mem s(2) by simp
  have h5: "\<not> int (length (memoryFrames s)) < 2" using s(2) by simp
  have nA: "nextRecorded ?pp 2 ''A'' = Some 5" and nB: "nextRecorded ?pp 2 ''B'' = Some 5"
    by (simp_all add: nextRecorded_def lookupSlice_def)
  from C5_victim_selection [OF h1 h2 s(1) h4 h5] obtain v s' where
    v: "optIter ?pp 2 False 2 (?tr ! 2) s = Inr s'"
    "specVictim (nextRecorded ?pp 2) (memoryFrames s) v"
    "memoryFrames s' = (memoryFrames s)[v := ?tr ! 2]" by blast
  have "v = 0"
  proof (rule ccontr)
    assume "v \<noteq> 0"
    then have "0 < v" by simp
    moreover from v(2) s(2) nA nB
    have "\<forall>u<v. the (nextRecorded ?pp 2 ([''A'', ''B''] ! u))
        < the (nextRecorded ?pp 2 ([''A'', ''B''] ! v))" "v < 2"
      by (auto simp: specVictim_def)
    ultimately have "the (nextRecorded ?pp 2 ''A'') < the (nextRecorded ?pp 2 ''B'')"
      by (cases v) auto
    with nA nB show False by simp
  qed
  with v s h4 nA nB show ?thesis by (intro exI [of _ s] exI [of _ s']) simp
qed

text \<open>
  Claim C6. The preprocessing loop of \<open>main\<close> maps every page of the trace to the
  ascending list of exactly the indices at which it occurs; a page that does not occur
  has no entry, and the empty trace gives the empty mapping. The loop is one pass over
  the trace (\<open>positionsLoop\<close>).
\<close>
theorem C6_preprocessing_index:
  "(p \<in> set pageReferences \<longrightarrow>
      (\<exists>l. buildPagePositions pageReferences p = Some l
         \<and> l = map int (filter (\<lambda>j. pageReferences ! j = p) [0..<length pageReferences])
         \<and> sorted_wrt (<) l
         \<and> set l = {int j | j. j < length pageReferences \<and> pageReferences ! j = p}))
   \<and> (p \<notin> set pageReferences \<longrightarrow> buildPagePositions pageReferences p = None)
   \<and> buildPagePositions [] = Map.empty"
proof (intro conjI impI)
  assume "p \<in> set pageReferences"
  then have "p \<in> dom (buildPagePositions pageReferences)"
    by (simp add: buildPagePositions_dom)
  then obtain l where l: "buildPagePositions pageReferences p = Some l" by auto
  with buildPagePositions_lookup [of pageReferences p]
  have e: "l = map int (filter (\<lambda>j. pageReferences ! j = p) [0..<length pageReferences])"
    by (simp add: lookupSlice_def)
  have "sorted_wrt (<) (filter (\<lambda>j. pageReferences ! j = p) [0..<length pageReferences])"
    by (rule sorted_wrt_filter) simp
  then have "sorted_wrt (<) l"
    unfolding e by (simp add: sorted_wrt_map)
  moreover have "set l = {int j | j. j < length pageReferences \<and> pageReferences ! j = p}"
    unfolding e by auto
  ultimately show "\<exists>l. buildPagePositions pageReferences p = Some l
         \<and> l = map int (filter (\<lambda>j. pageReferences ! j = p) [0..<length pageReferences])
         \<and> sorted_wrt (<) l
         \<and> set l = {int j | j. j < length pageReferences \<and> pageReferences ! j = p}"
    using l e by blast
next
  assume "p \<notin> set pageReferences"
  then have "p \<notin> dom (buildPagePositions pageReferences)"
    by (simp add: buildPagePositions_dom)
  then show "buildPagePositions pageReferences p = None" by auto
next
  show "buildPagePositions [] = Map.empty" by (simp add: buildPagePositions_def)
qed

text \<open>The theorem at a concrete input.\<close>
theorem C6_preprocessing_index_witness:
  "''A'' \<in> set [''A'', ''B'', ''A'']
   \<and> buildPagePositions [''A'', ''B'', ''A''] ''A'' = Some [0, 2]
   \<and> ''C'' \<notin> set [''A'', ''B'', ''A'']
   \<and> buildPagePositions [''A'', ''B'', ''A''] ''C'' = None"
  using C6_preprocessing_index [of "''A''" "[''A'', ''B'', ''A'']"]
    C6_preprocessing_index [of "''C''" "[''A'', ''B'', ''A'']"]
  by (simp add: upt_rec)

text \<open>
  Claim C7. With at least one frame, after any number \<open>j'\<close> of iterations of either
  simulator the set of resident pages mirrors the frames and has at most \<open>numFrames\<close>
  elements; and if after \<open>j \<le> j'\<close> iterations at least \<open>numFrames\<close> distinct pages have
  missed (the keys of \<open>loadCounts\<close>), it has exactly \<open>numFrames\<close> elements. The run of
  \<open>fifoAlgorithm\<close> reaches these states for every such \<open>numFrames\<close>; for
  \<open>optimalAlgorithmOptimized\<close> the property is stated of the states that its run reaches.
\<close>
theorem C7_resident_count_bounded:
  assumes "1 \<le> numFrames" "j \<le> j'"
  shows "(\<exists>s s'. fifoRun (take j pageReferences) numFrames didacticMode = Inr s
            \<and> fifoRun (take j' pageReferences) numFrames didacticMode = Inr s'
            \<and> pageInMmemorySet s' = set (memoryFrames s')
            \<and> int (card (pageInMmemorySet s')) \<le> numFrames
            \<and> (numFrames \<le> int (card (dom (loadCounts (result s))))
                 \<longrightarrow> int (card (pageInMmemorySet s')) = numFrames))
       \<and> (\<forall>s s'. optRun (take j pageReferences) numFrames pagePositions didacticMode = Inr s
            \<and> optRun (take j' pageReferences) numFrames pagePositions didacticMode = Inr s'
            \<longrightarrow> pageInMmemorySet s' = set (memoryFrames s')
              \<and> int (card (pageInMmemorySet s')) \<le> numFrames
              \<and> (numFrames \<le> int (card (dom (loadCounts (result s))))
                   \<longrightarrow> int (card (pageInMmemorySet s')) = numFrames))"
proof (intro conjI allI impI)
  have sub: "set (take j pageReferences) \<subseteq> set (take j' pageReferences)"
    using assms(2) by (rule set_take_subset_set_take)
  have mono: "card (set (take j pageReferences)) \<le> card (set (take j' pageReferences))"
    using sub by (intro card_mono) simp_all
  {
    from fifoRun_inv [OF assms(1), of "take j pageReferences" didacticMode] obtain s where
      s: "fifoRun (take j pageReferences) numFrames didacticMode = Inr s"
      "dom (loadCounts (result s)) = set (take j pageReferences)" by blast
    from fifoRun_inv [OF assms(1), of "take j' pageReferences" didacticMode] obtain s' where
      s': "fifoRun (take j' pageReferences) numFrames didacticMode = Inr s'"
      "memInv numFrames s'"
      "dom (loadCounts (result s')) = set (take j' pageReferences)" by blast
    show "\<exists>s s'. fifoRun (take j pageReferences) numFrames didacticMode = Inr s
            \<and> fifoRun (take j' pageReferences) numFrames didacticMode = Inr s'
            \<and> pageInMmemorySet s' = set (memoryFrames s')
            \<and> int (card (pageInMmemorySet s')) \<le> numFrames
            \<and> (numFrames \<le> int (card (dom (loadCounts (result s))))
                 \<longrightarrow> int (card (pageInMmemorySet s')) = numFrames)"
      using s s' mono card_resident [OF s'(2)] by auto
  }
  fix s s'
  assume a: "optRun (take j pageReferences) numFrames pagePositions didacticMode = Inr s
     \<and> optRun (take j' pageReferences) numFrames pagePositions didacticMode = Inr s'"
  from a optRun_inv [OF assms(1), of "take j pageReferences" pagePositions didacticMode s]
  have s: "dom (loadCounts (result s)) = set (take j pageReferences)" by simp
  from a optRun_inv [OF assms(1), of "take j' pageReferences" pagePositions didacticMode s']
  have s': "memInv numFrames s'" "dom (loadCounts (result s')) = set (take j' pageReferences)"
    by simp_all
  show "pageInMmemorySet s' = set (memoryFrames s')"
    by (rule card_resident(2) [OF s'(1)])
  show "int (card (pageInMmemorySet s')) \<le> numFrames"
    by (rule card_resident(1) [OF s'(1)])
  show "int (card (pageInMmemorySet s')) = numFrames"
    if "numFrames \<le> int (card (dom (loadCounts (result s))))"
    using that s s' mono by (intro card_resident(3) [OF s'(1)]) simp
qed

text \<open>
  The theorem at a concrete input: with two frames, both runs have reached two distinct
  misses after two iterations and hold two pages after three.
\<close>
theorem C7_resident_count_bounded_witness:
  "(1::int) \<le> 2 \<and> (2::nat) \<le> 3
   \<and> (\<exists>s s'. fifoRun [''A'', ''B''] 2 False = Inr s
         \<and> fifoRun [''A'', ''B'', ''C''] 2 False = Inr s'
         \<and> 2 \<le> int (card (dom (loadCounts (result s))))
         \<and> int (card (pageInMmemorySet s')) = 2)
   \<and> (\<exists>s s'. optRun [''A'', ''B''] 2 (buildPagePositions [''A'', ''B'', ''C'', ''A'']) False = Inr s
         \<and> optRun [''A'', ''B'', ''C''] 2 (buildPagePositions [''A'', ''B'', ''C'', ''A'']) False
             = Inr s'
         \<and> 2 \<le> int (card (dom (loadCounts (result s))))
         \<and> int (card (pageInMmemorySet s')) = 2)"
proof -
  let ?tr = "[''A'', ''B'', ''C'', ''A'']"
  let ?pp = "buildPagePositions ?tr"
  have h: "(1::int) \<le> 2" "(2::nat) \<le> 3" by simp_all
  have t: "take 2 ?tr = [''A'', ''B'']" "take 3 ?tr = [''A'', ''B'', ''C'']" by simp_all
  have c: "int (card (set [''A'', ''B''])) = 2" by simp
  have cap: "stringSize * 2 \<le> maxAlloc" by (simp add: stringSize_def maxAlloc_def)
  from optRun_returns [OF h(1) cap, of "[''A'', ''B'']" ?pp False] obtain t where
    t1: "optRun [''A'', ''B''] 2 ?pp False = Inr t" by blast
  from optRun_returns [OF h(1) cap, of "[''A'', ''B'', ''C'']" ?pp False] obtain t' where
    t2: "optRun [''A'', ''B'', ''C''] 2 ?pp False = Inr t'" by blast
  note inst = C7_resident_count_bounded [OF h, of ?tr False ?pp, unfolded t]
  from inst obtain s s' where
    f: "fifoRun [''A'', ''B''] 2 False = Inr s" "fifoRun [''A'', ''B'', ''C''] 2 False = Inr s'"
      "2 \<le> int (card (dom (loadCounts (result s)))) \<longrightarrow> int (card (pageInMmemorySet s')) = 2"
    by auto
  from inst t1 t2 have
    p: "2 \<le> int (card (dom (loadCounts (result t)))) \<longrightarrow> int (card (pageInMmemorySet t')) = 2"
    by blast
  from fifoRun_inv [OF h(1), of "[''A'', ''B'']" False] f(1)
  have "dom (loadCounts (result s)) = set [''A'', ''B'']" by simp
  with c have ds: "2 \<le> int (card (dom (loadCounts (result s))))" by simp
  from optRun_inv [OF h(1) t1]
  have "dom (loadCounts (result t)) = set [''A'', ''B'']" by simp
  with c have dt: "2 \<le> int (card (dom (loadCounts (result t))))" by simp
  from f ds p dt t1 t2 h show ?thesis by blast
qed

text \<open>
  Claim C8, as amended. On the empty trace with at least one frame, \<open>fifoAlgorithm\<close>
  returns the result with \<open>pageFaults = 0\<close> and an empty \<open>loadCounts\<close>, and so does
  \<open>optimalAlgorithmOptimized\<close> as long as the frames fit the capacity that \<open>make\<close> accepts
  (16 bytes times \<open>numFrames\<close> at most \<open>maxAlloc\<close>); for a larger \<open>numFrames\<close> it panics.
\<close>
theorem C8_empty_trace:
  "1 \<le> numFrames \<Longrightarrow>
     fifoAlgorithm [] numFrames didacticMode = Inr \<lparr>pageFaults = 0, loadCounts = Map.empty\<rparr>
     \<and> (stringSize * numFrames \<le> maxAlloc \<longrightarrow>
          optimalAlgorithmOptimized [] numFrames pagePositions didacticMode
            = Inr \<lparr>pageFaults = 0, loadCounts = Map.empty\<rparr>)
     \<and> (maxAlloc < stringSize * numFrames \<longrightarrow>
          optimalAlgorithmOptimized [] numFrames pagePositions didacticMode
            = Inl MakesliceCapOutOfRange)"
  by (simp add: fifoAlgorithm_def fifoRun_def fifoInit_def optimalAlgorithmOptimized_def
      optRun_def optInit_def emptyResult_def)

text \<open>The theorem at a capacity within the limit and at one beyond it.\<close>
theorem C8_empty_trace_witness:
  "(1::int) \<le> 4 \<and> stringSize * 4 \<le> maxAlloc
   \<and> fifoAlgorithm [] 4 False = Inr \<lparr>pageFaults = 0, loadCounts = Map.empty\<rparr>
   \<and> optimalAlgorithmOptimized [] 4 (buildPagePositions []) False
         = Inr \<lparr>pageFaults = 0, loadCounts = Map.empty\<rparr>
   \<and> maxAlloc < stringSize * 17592186044417
   \<and> optimalAlgorithmOptimized [] 17592186044417 (buildPagePositions []) False
         = Inl MakesliceCapOutOfRange"
  using C8_empty_trace [of 4 False "buildPagePositions []"]
    C8_empty_trace [of 17592186044417 False "buildPagePositions []"]
  by (simp add: stringSize_def maxAlloc_def)

text \<open>
  Claim C8 as stated does not hold: with the largest \<open>numFrames\<close> that \<open>main\<close> can pass,
  \<open>optimalAlgorithmOptimized\<close> returns no result on the empty trace.
\<close>
theorem C8_large_capacity_panics:
  "optimalAlgorithmOptimized [] 2251799813685247 (buildPagePositions []) False
     = Inl MakesliceCapOutOfRange"
  by (simp add: optimalAlgorithmOptimized_def optRun_def stringSize_def maxAlloc_def)

text \<open>
  Claim C9. With at least one frame, \<open>fifoAlgorithm\<close> returns with \<open>didacticMode = true\<close>
  the same result as with \<open>didacticMode = false\<close>, and the two runs of
  \<open>optimalAlgorithmOptimized\<close> have the same outcome: the same result when they return.
\<close>
theorem C9_didactic_mode_is_transparent:
  assumes "1 \<le> numFrames"
  shows "(\<exists>r. fifoAlgorithm pageReferences numFrames True = Inr r
            \<and> fifoAlgorithm pageReferences numFrames False = Inr r)
       \<and> optimalAlgorithmOptimized pageReferences numFrames pagePositions True
           = optimalAlgorithmOptimized pageReferences numFrames pagePositions False
       \<and> (\<forall>r. optimalAlgorithmOptimized pageReferences numFrames pagePositions True = Inr r
            \<longrightarrow> optimalAlgorithmOptimized pageReferences numFrames pagePositions False = Inr r)"
proof (intro conjI allI impI)
  from fifoRun_inv [OF assms, of pageReferences True]
  have "\<exists>r. fifoAlgorithm pageReferences numFrames True = Inr r"
    by (auto simp: fifoAlgorithm_def)
  then show "\<exists>r. fifoAlgorithm pageReferences numFrames True = Inr r
            \<and> fifoAlgorithm pageReferences numFrames False = Inr r"
    using fifoAlgorithm_didactic [of pageReferences numFrames True False] by auto
  show e: "optimalAlgorithmOptimized pageReferences numFrames pagePositions True
           = optimalAlgorithmOptimized pageReferences numFrames pagePositions False"
    by (rule optimalAlgorithmOptimized_didactic)
  fix r
  assume "optimalAlgorithmOptimized pageReferences numFrames pagePositions True = Inr r"
  with e show "optimalAlgorithmOptimized pageReferences numFrames pagePositions False = Inr r"
    by simp
qed

text \<open>The theorem at a concrete input, where both simulators return.\<close>
theorem C9_didactic_mode_is_transparent_witness:
  "(1::int) \<le> 2
   \<and> (\<exists>r. fifoAlgorithm [''A'', ''B'', ''C'', ''A''] 2 True = Inr r
         \<and> fifoAlgorithm [''A'', ''B'', ''C'', ''A''] 2 False = Inr r)
   \<and> (\<exists>r. optimalAlgorithmOptimized [''A'', ''B'', ''C'', ''A''] 2
              (buildPagePositions [''A'', ''B'', ''C'', ''A'']) True = Inr r
         \<and> optimalAlgorithmOptimized [''A'', ''B'', ''C'', ''A''] 2
              (buildPagePositions [''A'', ''B'', ''C'', ''A'']) False = Inr r)"
proof -
  let ?tr = "[''A'', ''B'', ''C'', ''A'']"
  have h: "(1::int) \<le> 2" by simp
  have "stringSize * 2 \<le> maxAlloc" by (simp add: stringSize_def maxAlloc_def)
  from optRun_returns [OF h this, of ?tr "buildPagePositions ?tr" True] obtain so where
    "optRun ?tr 2 (buildPagePositions ?tr) True = Inr so" by blast
  then have "optimalAlgorithmOptimized ?tr 2 (buildPagePositions ?tr) True = Inr (result so)"
    by (simp add: optimalAlgorithmOptimized_def)
  with C9_didactic_mode_is_transparent [OF h, of ?tr "buildPagePositions ?tr"] h
  show ?thesis by blast
qed

text \<open>
  Claim C10. With at least one frame, in both simulators the first occurrence of a page
  in the trace is a miss and adds one to \<open>pageFaults\<close>; in the result returned the keys of
  \<open>loadCounts\<close> are the pages of the trace, every count is at least one, and \<open>pageFaults\<close>
  is at least the number of distinct pages of the trace. \<open>fifoAlgorithm\<close> returns for
  every such \<open>numFrames\<close>; for \<open>optimalAlgorithmOptimized\<close> the properties are stated of
  the states its run reaches and of the result it returns.
\<close>
theorem C10_first_occurrence_faults:
  assumes "1 \<le> numFrames"
  shows "(\<forall>pre p post. pageReferences = pre @ p # post \<and> p \<notin> set pre \<longrightarrow>
            (\<exists>s s'. fifoRun pre numFrames didacticMode = Inr s
               \<and> fifoRun (pre @ [p]) numFrames didacticMode = Inr s'
               \<and> p \<notin> pageInMmemorySet s
               \<and> pageFaults (result s') = pageFaults (result s) + 1)
          \<and> (\<forall>s. optRun pre numFrames pagePositions didacticMode = Inr s \<longrightarrow>
               (\<exists>s'. optRun (pre @ [p]) numFrames pagePositions didacticMode = Inr s'
                  \<and> p \<notin> pageInMmemorySet s
                  \<and> pageFaults (result s') = pageFaults (result s) + 1)))
       \<and> (\<exists>r. fifoAlgorithm pageReferences numFrames didacticMode = Inr r
            \<and> dom (loadCounts r) = set pageReferences
            \<and> (\<forall>p\<in>dom (loadCounts r). 1 \<le> the (loadCounts r p))
            \<and> int (card (set pageReferences)) \<le> pageFaults r)
       \<and> (\<forall>r. optimalAlgorithmOptimized pageReferences numFrames pagePositions didacticMode = Inr r
            \<longrightarrow> dom (loadCounts r) = set pageReferences
              \<and> (\<forall>p\<in>dom (loadCounts r). 1 \<le> the (loadCounts r p))
              \<and> int (card (set pageReferences)) \<le> pageFaults r)"
proof (intro conjI allI impI)
  fix pre p post
  assume "pageReferences = pre @ p # post \<and> p \<notin> set pre"
  then have p: "p \<notin> set pre" by simp
  from fifo_first_occurrence [OF assms p]
  show "\<exists>s s'. fifoRun pre numFrames didacticMode = Inr s
               \<and> fifoRun (pre @ [p]) numFrames didacticMode = Inr s'
               \<and> p \<notin> pageInMmemorySet s
               \<and> pageFaults (result s') = pageFaults (result s) + 1" .
  fix s
  assume "optRun pre numFrames pagePositions didacticMode = Inr s"
  from opt_first_occurrence [OF assms p this]
  show "\<exists>s'. optRun (pre @ [p]) numFrames pagePositions didacticMode = Inr s'
               \<and> p \<notin> pageInMmemorySet s
               \<and> pageFaults (result s') = pageFaults (result s) + 1" .
next
  from fifoRun_inv [OF assms, of pageReferences didacticMode] obtain s where
    s: "fifoRun pageReferences numFrames didacticMode = Inr s" "memInv numFrames s"
    "dom (loadCounts (result s)) = set pageReferences" by blast
  then have l: "loadsInv (result s)" by (simp add: memInv_def)
  from faults_ge_distinct [OF l] l s
  show "\<exists>r. fifoAlgorithm pageReferences numFrames didacticMode = Inr r
            \<and> dom (loadCounts r) = set pageReferences
            \<and> (\<forall>p\<in>dom (loadCounts r). 1 \<le> the (loadCounts r p))
            \<and> int (card (set pageReferences)) \<le> pageFaults r"
    by (simp add: fifoAlgorithm_def loadsInv_def)
next
  fix r
  assume "optimalAlgorithmOptimized pageReferences numFrames pagePositions didacticMode = Inr r"
  then obtain s where
    s: "optRun pageReferences numFrames pagePositions didacticMode = Inr s" "r = result s"
    by (auto simp: optimalAlgorithmOptimized_def split: sum.splits)
  from optRun_inv [OF assms s(1)] have m: "memInv numFrames s"
    and d: "dom (loadCounts (result s)) = set pageReferences" by simp_all
  from m have l: "loadsInv (result s)" by (simp add: memInv_def)
  show "dom (loadCounts r) = set pageReferences" using d s(2) by simp
  show "\<forall>p\<in>dom (loadCounts r). 1 \<le> the (loadCounts r p)"
    using l s(2) by (simp add: loadsInv_def)
  show "int (card (set pageReferences)) \<le> pageFaults r"
    using faults_ge_distinct [OF l] d s(2) by simp
qed

text \<open>The theorem at a concrete input, where both simulators return.\<close>
theorem C10_first_occurrence_faults_witness:
  "(1::int) \<le> 2 \<and> ''B'' \<notin> set [''A'']
   \<and> (\<exists>s s'. fifoRun [''A''] 2 False = Inr s \<and> fifoRun ([''A''] @ [''B'']) 2 False = Inr s'
         \<and> ''B'' \<notin> pageInMmemorySet s
         \<and> pageFaults (result s') = pageFaults (result s) + 1)
   \<and> (\<exists>s s'. optRun [''A''] 2 (buildPagePositions [''A'', ''B'', ''C'', ''A'']) False = Inr s
         \<and> optRun ([''A''] @ [''B'']) 2 (buildPagePositions [''A'', ''B'', ''C'', ''A'']) False
             = Inr s'
         \<and> ''B'' \<notin> pageInMmemorySet s
         \<and> pageFaults (result s') = pageFaults (result s) + 1)
   \<and> (\<exists>r. fifoAlgorithm [''A'', ''B'', ''C'', ''A''] 2 False = Inr r
         \<and> dom (loadCounts r) = set [''A'', ''B'', ''C'', ''A'']
         \<and> int (card (set [''A'', ''B'', ''C'', ''A''])) \<le> pageFaults r)
   \<and> (\<exists>r. optimalAlgorithmOptimized [''A'', ''B'', ''C'', ''A''] 2
              (buildPagePositions [''A'', ''B'', ''C'', ''A'']) False = Inr r
         \<and> dom (loadCounts r) = set [''A'', ''B'', ''C'', ''A'']
         \<and> int (card (set [''A'', ''B'', ''C'', ''A''])) \<le> pageFaults r)"
proof -
  let ?tr = "[''A'', ''B'', ''C'', ''A'']"
  let ?pp = "buildPagePositions ?tr"
  have h: "(1::int) \<le> 2" by simp
  have cap: "stringSize * 2 \<le> maxAlloc" by (simp add: stringSize_def maxAlloc_def)
  have p: "?tr = [''A''] @ ''B'' # [''C'', ''A''] \<and> ''B'' \<notin> set [''A'']"
    by simp
  from optRun_returns [OF h cap, of "[''A'']" ?pp False] obtain t where
    t: "optRun [''A''] 2 ?pp False = Inr t" by blast
  from optRun_returns [OF h cap, of ?tr ?pp False] obtain so where
    "optRun ?tr 2 ?pp False = Inr so" by blast
  then have o: "optimalAlgorithmOptimized ?tr 2 ?pp False = Inr (result so)"
    by (simp add: optimalAlgorithmOptimized_def)
  note inst = C10_first_occurrence_faults [OF h, of ?tr False ?pp]
  note first = inst [THEN conjunct1, rule_format, OF p]
  note fifo = inst [THEN conjunct2, THEN conjunct1]
  note opt = inst [THEN conjunct2, THEN conjunct2, rule_format, OF o]
  from first have f1: "\<exists>s s'. fifoRun [''A''] 2 False = Inr s
      \<and> fifoRun ([''A''] @ [''B'']) 2 False = Inr s'
      \<and> ''B'' \<notin> pageInMmemorySet s
      \<and> pageFaults (result s') = pageFaults (result s) + 1" by (rule conjunct1)
  from first [THEN conjunct2, rule_format, OF t] obtain t' where
    "optRun ([''A''] @ [''B'']) 2 ?pp False = Inr t'" "''B'' \<notin> pageInMmemorySet t"
    "pageFaults (result t') = pageFaults (result t) + 1" by blast
  with t have f2: "\<exists>s s'. optRun [''A''] 2 ?pp False = Inr s
      \<and> optRun ([''A''] @ [''B'']) 2 ?pp False = Inr s'
      \<and> ''B'' \<notin> pageInMmemorySet s
      \<and> pageFaults (result s') = pageFaults (result s) + 1" by blast
  from fifo obtain r where "fifoAlgorithm ?tr 2 False = Inr r"
    "dom (loadCounts r) = set ?tr" "int (card (set ?tr)) \<le> pageFaults r" by blast
  then have f3: "\<exists>r. fifoAlgorithm ?tr 2 False = Inr r
      \<and> dom (loadCounts r) = set ?tr
      \<and> int (card (set ?tr)) \<le> pageFaults r" by blast
  from opt have "dom (loadCounts (result so)) = set ?tr"
    "int (card (set ?tr)) \<le> pageFaults (result so)" by blast+
  with o have f4: "\<exists>r. optimalAlgorithmOptimized ?tr 2 ?pp False = Inr r
      \<and> dom (loadCounts r) = set ?tr
      \<and> int (card (set ?tr)) \<le> pageFaults r" by blast
  have p2: "''B'' \<notin> set [''A'']" by simp
  from h p2 f1 f2 f3 f4 show ?thesis by (intro conjI)
qed

end
